theory Spec2Isabelle
  imports Complex_Main "HOL-Library.Multiset"
begin

section \<open>Data model\<close>

text \<open>
  The pipeline \<^verbatim>\<open>LoadBuildingAnnotations\<close> works on numpy arrays of shape \<open>(P, 2)\<close>.
  A polygon is modelled as the list of its rows, a row as a pair of reals: the
  coordinates are taken as exact numbers, so the theorems below speak about the
  algorithm and not about the rounding of float64 arithmetic.  Python integers are
  \<open>int\<close>; list and array lengths are \<open>nat\<close>.
\<close>

type_synonym point = "real \<times> real"

text \<open>Every exception the modelled code can raise is a value of this type.\<close>

datatype error = ValueError | IndexError | AssertionError | TypeError | NanCast

text \<open>
  \<open>NanCast\<close> is not a Python exception: it marks the one place where the source
  leaves exact arithmetic, the division \<open>0 / 0\<close> of a polygon without perimeter,
  whose NaN is then cast to \<open>int32\<close> with a platform-defined outcome.
\<close>

text \<open>
  The configuration fields of \<^verbatim>\<open>__init__\<close> that the polygon code reads.  The weight
  of a keypoint is any number; the label array that receives it has dtype \<open>int\<close>.
\<close>

record config =
  num_points :: int
  spline_num :: int
  key_points_weight :: real
  training :: bool
  poly2mask :: bool

text \<open>\<^verbatim>\<open>self.spline_poly_num = num_points * 10\<close>\<close>

definition spline_poly_num :: "config \<Rightarrow> int" where
  "spline_poly_num cfg = num_points cfg * 10"

section \<open>numpy primitives\<close>

text \<open>\<^verbatim>\<open>xs[i]\<close> for a Python integer \<open>i\<close>: negative indices count from the end.\<close>

definition py_index :: "'a list \<Rightarrow> int \<Rightarrow> error + 'a" where
  "py_index xs i =
     (if 0 \<le> i \<and> i < int (length xs) then Inr (xs ! nat i)
      else if i < 0 \<and> - int (length xs) \<le> i then Inr (xs ! nat (int (length xs) + i))
      else Inl IndexError)"

text \<open>\<^verbatim>\<open>np.argmin(keys)\<close>: the first index of a least element; an empty array raises.\<close>

fun argmin_from :: "real \<Rightarrow> nat \<Rightarrow> nat \<Rightarrow> real list \<Rightarrow> nat" where
  "argmin_from best besti i [] = besti"
| "argmin_from best besti i (k # ks) =
     (if k < best then argmin_from k i (Suc i) ks else argmin_from best besti (Suc i) ks)"

definition argmin :: "real list \<Rightarrow> error + nat" where
  "argmin keys = (case keys of [] \<Rightarrow> Inl ValueError | k # ks \<Rightarrow> Inr (argmin_from k 0 1 ks))"

text \<open>\<^verbatim>\<open>np.round\<close> on an exact number: to the nearest integer, a half to the even one.\<close>

definition np_round :: "real \<Rightarrow> int" where
  "np_round x =
     (let f = \<lfloor>x\<rfloor>; d = x - of_int f
      in if d < 1 / 2 then f else if 1 / 2 < d then f + 1 else if even f then f else f + 1)"

text \<open>\<^verbatim>\<open>np.roll(a, -k, axis=0)\<close> for \<open>0 \<le> k\<close>: a cyclic shift to the left by \<open>k\<close> rows.\<close>

definition roll_left :: "nat \<Rightarrow> 'a list \<Rightarrow> 'a list" where
  "roll_left k xs = (if xs = [] then [] else drop (k mod length xs) xs @ take (k mod length xs) xs)"

section \<open>The argsort of numpy\<close>

text \<open>
  \<^verbatim>\<open>np.argsort(keys)\<close> with the default \<^verbatim>\<open>kind='quicksort'\<close>.  numpy is a library outside
  the repository; the model follows its generic argsort (\<^verbatim>\<open>aquicksort\<close> in
  \<^verbatim>\<open>npysort/quicksort\<close>), an introsort on the array \<open>tosort\<close> of indices: segments of
  more than 17 entries are partitioned around the median of their first, middle and last
  entry, shorter segments are sorted by insertion.  The sort is not stable: a partition
  moves entries of equal key past each other.  A segment is written as the list of its
  entries, \<open>key i\<close> is \<^verbatim>\<open>v[i]\<close>.
\<close>

text \<open>\<^verbatim>\<open>INTP_SWAP(*pi, *pj)\<close>\<close>

definition swap :: "nat \<Rightarrow> nat \<Rightarrow> 'a list \<Rightarrow> 'a list" where
  "swap i j xs = xs[i := xs ! j, j := xs ! i]"

text \<open>\<^verbatim>\<open>npy_get_msb\<close>: the position of the highest set bit.\<close>

function npy_get_msb :: "nat \<Rightarrow> nat" where
  "npy_get_msb n = (if n < 2 then 0 else Suc (npy_get_msb (n div 2)))"
  by pat_completeness auto
termination
  by (relation "measure (\<lambda>n. n)") auto

text \<open>
  The insertion sort of a short segment:
  \<^verbatim>\<open>
  for (pi = pl + 1; pi <= pr; ++pi) {
      vi = *pi; vp = v[vi]; pj = pi; pk = pi - 1;
      while (pj > pl && LT(vp, v[*pk])) { *pj-- = *pk--; }
      *pj = vi;
  }
  \<close>
  \<open>shift_insert\<close> works on the sorted prefix read from its right end: \<open>vi\<close> moves to the
  left past every entry of greater key and stays right of the first entry whose key is
  not greater.
\<close>

fun shift_insert :: "(nat \<Rightarrow> real) \<Rightarrow> nat \<Rightarrow> nat list \<Rightarrow> nat list" where
  "shift_insert key vi [] = [vi]"
| "shift_insert key vi (y # ys) =
     (if key vi < key y then y # shift_insert key vi ys else vi # y # ys)"

definition insertion_sort :: "(nat \<Rightarrow> real) \<Rightarrow> nat list \<Rightarrow> nat list" where
  "insertion_sort key a = rev (foldl (\<lambda>sorted_rev vi. shift_insert key vi sorted_rev) [] a)"

text \<open>
  The partition of a segment \<open>a\<close> with first index 0 (\<open>pl\<close>) and last index \<open>pr\<close>:
  \<^verbatim>\<open>
  pm = pl + ((pr - pl) >> 1);
  if (LT(v[*pm], v[*pl])) INTP_SWAP(*pm, *pl);
  if (LT(v[*pr], v[*pm])) INTP_SWAP(*pr, *pm);
  if (LT(v[*pm], v[*pl])) INTP_SWAP(*pm, *pl);
  vp = v[*pm];
  pi = pl; pj = pr - 1;
  INTP_SWAP(*pm, *pj);
  for (;;) {
      do ++pi; while (LT(v[*pi], vp));
      do --pj; while (LT(vp, v[*pj]));
      if (pi >= pj) break;
      INTP_SWAP(*pi, *pj);
  }
  pk = pr - 1;
  INTP_SWAP(*pi, *pk);
  \<close>
  (\<open>pi\<close> and \<open>pj\<close> are written \<open>ip\<close> and \<open>jp\<close>, \<open>pi\<close> being a constant of HOL).  The
  two scans have no bound in the source: the pivot at \<open>pr - 1\<close> stops the scan upwards and
  the entry at \<open>pl\<close> the scan downwards.  The model stops them there too, so every index
  it reads is inside the segment; by \<open>scan_up_spec\<close> and \<open>scan_down_spec\<close> below the bound
  is never what ends a scan.
\<close>

definition cswap :: "(nat \<Rightarrow> real) \<Rightarrow> nat \<Rightarrow> nat \<Rightarrow> nat list \<Rightarrow> nat list" where
  "cswap key i j a = (if key (a ! i) < key (a ! j) then swap i j a else a)"

definition median3 :: "(nat \<Rightarrow> real) \<Rightarrow> nat list \<Rightarrow> nat list" where
  "median3 key a =
     (let pr = length a - 1; pm = pr div 2
      in cswap key pm 0 (cswap key pr pm (cswap key pm 0 a)))"

function scan_up :: "(nat \<Rightarrow> real) \<Rightarrow> real \<Rightarrow> nat list \<Rightarrow> nat \<Rightarrow> nat \<Rightarrow> nat" where
  "scan_up key vp a hi ip =
     (if Suc ip < hi \<and> key (a ! Suc ip) < vp then scan_up key vp a hi (Suc ip) else Suc ip)"
  by pat_completeness auto
termination
  by (relation "measure (\<lambda>(key, vp, a, hi, ip). hi - ip)") auto

fun scan_down :: "(nat \<Rightarrow> real) \<Rightarrow> real \<Rightarrow> nat list \<Rightarrow> nat \<Rightarrow> nat" where
  "scan_down key vp a 0 = 0"
| "scan_down key vp a (Suc jp) = (if vp < key (a ! jp) then scan_down key vp a jp else jp)"

function hoare_loop ::
    "(nat \<Rightarrow> real) \<Rightarrow> real \<Rightarrow> nat list \<Rightarrow> nat \<Rightarrow> nat \<Rightarrow> nat \<Rightarrow> nat list \<times> nat" where
  "hoare_loop key vp a hi ip jp =
     (let ip = scan_up key vp a hi ip; jp = scan_down key vp a jp
      in if ip \<ge> jp then (a, ip) else hoare_loop key vp (swap ip jp a) hi ip jp)"
  by pat_completeness auto
termination
proof -
  have up: "ip < scan_up key vp a hi ip" for key vp a hi ip
  proof (induction key vp a hi ip rule: scan_up.induct)
    case (1 key vp a hi ip)
    show ?case
    proof (cases "Suc ip < hi \<and> key (a ! Suc ip) < vp")
      case True
      then have "scan_up key vp a hi ip = scan_up key vp a hi (Suc ip)"
        by (subst scan_up.simps) simp
      with 1 True show ?thesis by simp
    next
      case False
      then have "scan_up key vp a hi ip = Suc ip"
        by (subst scan_up.simps) auto
      then show ?thesis by simp
    qed
  qed
  have down: "scan_down key vp a jp \<le> jp" for key vp a jp
    by (induction jp) auto
  show ?thesis
  proof (relation "measure (\<lambda>(key, vp, a, hi, ip, jp). jp - ip)", goal_cases)
    case 1
    show ?case by simp
  next
    case (2 key vp a hi ip jp x xa)
    have "ip < x" using 2(1) up by simp
    moreover have "xa \<le> jp" using 2(2) down by simp
    ultimately show ?case using 2(3) by simp
  qed
qed

definition qs_partition :: "(nat \<Rightarrow> real) \<Rightarrow> nat list \<Rightarrow> nat list \<times> nat \<times> nat list" where
  "qs_partition key a =
     (let pr = length a - 1; pm = pr div 2;
          a = median3 key a;
          vp = key (a ! pm);
          a = swap pm (pr - 1) a;
          (a, ip) = hoare_loop key vp a (pr - 1) 0 (pr - 1);
          a = swap ip (pr - 1) a
      in (take ip a, a ! ip, drop (Suc ip) a))"

text \<open>
  When the bound \<open>cdepth\<close> on nested partitions is used up, numpy sorts the segment it
  takes from its stack by heapsort.  The model sorts that segment with the insertion
  sort of HOL: both return the segment in ascending order of its keys, and they can
  differ only in the order of entries with equal keys, on which no statement about this
  case is made below.
\<close>

definition heap_fallback :: "(nat \<Rightarrow> real) \<Rightarrow> nat list \<Rightarrow> nat list" where
  "heap_fallback key a = sort_key key a"

text \<open>
  The outer loop with its stack of segments:
  \<^verbatim>\<open>
  int cdepth = npy_get_msb(num) * 2;
  while (1) {
      if (cdepth < 0) { aheapsort(vv, pl, pr - pl + 1, NULL); goto stack_pop; }
      while ((pr - pl) > SMALL_QUICKSORT) {
          /* partition */
          /* push largest partition on stack */
          if (pi - pl < pr - pi) { *sptr++ = pi + 1; *sptr++ = pr; pr = pi - 1; }
          else { *sptr++ = pl; *sptr++ = pi - 1; pl = pi + 1; }
          *psdepth++ = --cdepth;
      }
      /* insertion sort */
  stack_pop:
      if (sptr == stack) break;
      pr = *(--sptr); pl = *(--sptr); cdepth = *(--psdepth);
  }
  \<close>
  with \<open>SMALL_QUICKSORT = 16\<close>.  The two parts of a partition are sorted independently
  of each other, so the stack is a recursion: \<open>popped\<close> tells whether the segment was
  taken from the stack (or is the whole array), where alone \<open>cdepth\<close> is tested.
\<close>

function introsort :: "(nat \<Rightarrow> real) \<Rightarrow> bool \<Rightarrow> int \<Rightarrow> nat list \<Rightarrow> nat list" where
  "introsort key popped cdepth a =
     (if popped \<and> cdepth < 0 then heap_fallback key a
      else if length a - 1 > 16 then
        (case qs_partition key a of (l, p, r) \<Rightarrow>
           if length l < length r
           then introsort key False (cdepth - 1) l @ [p] @ introsort key True (cdepth - 1) r
           else introsort key True (cdepth - 1) l @ [p] @ introsort key False (cdepth - 1) r)
      else insertion_sort key a)"
  by pat_completeness auto
termination
proof -
  have up: "ip < hi \<Longrightarrow> scan_up key vp a hi ip \<le> hi" for key vp a hi ip
  proof (induction key vp a hi ip rule: scan_up.induct)
    case (1 key vp a hi ip)
    show ?case
    proof (cases "Suc ip < hi \<and> key (a ! Suc ip) < vp")
      case True
      then have "scan_up key vp a hi ip = scan_up key vp a hi (Suc ip)"
        by (subst scan_up.simps) simp
      with "1.IH" True show ?thesis by simp
    next
      case False
      then have "scan_up key vp a hi ip = Suc ip"
        by (subst scan_up.simps) auto
      then show ?thesis using "1.prems" by simp
    qed
  qed
  have down: "scan_down key vp a jp \<le> jp" for key vp a jp
    by (induction jp) auto
  have loop: "ip < hi \<Longrightarrow> jp \<le> hi \<Longrightarrow> hoare_loop key vp a hi ip jp = (a', r)
      \<Longrightarrow> r \<le> hi \<and> length a' = length a" for key vp a hi ip jp a' r
  proof (induction key vp a hi ip jp arbitrary: a' r rule: hoare_loop.induct)
    case (1 key vp a hi ip jp)
    define i where "i = scan_up key vp a hi ip"
    define j where "j = scan_down key vp a jp"
    have i: "i \<le> hi" using up [OF "1.prems"(1)] by (simp add: i_def)
    have j: "j \<le> hi" using down [of key vp a jp] "1.prems"(2) by (simp add: j_def)
    show ?case
    proof (cases "i \<ge> j")
      case True
      then have "hoare_loop key vp a hi ip jp = (a, i)"
        by (subst hoare_loop.simps) (simp add: Let_def i_def j_def)
      with "1.prems"(3) i show ?thesis by simp
    next
      case False
      then have "hoare_loop key vp a hi ip jp = hoare_loop key vp (swap i j a) hi i j"
        by (subst hoare_loop.simps) (simp add: Let_def i_def j_def)
      with "1.prems"(3) have "hoare_loop key vp (swap i j a) hi i j = (a', r)" by simp
      moreover have "i < hi" using False j by simp
      ultimately show ?thesis
        using "1.IH" [OF i_def j_def False _ j] by (simp add: swap_def)
    qed
  qed
  have part: "length l < length a \<and> length r < length a"
    if "16 < length a - Suc 0" "(l, p, r) = qs_partition key a" for key a l p r
  proof -
    define pr where "pr = length a - 1"
    define a2 where "a2 = swap (pr div 2) (pr - 1) (median3 key a)"
    obtain a3 i where lp:
      "hoare_loop key (key (median3 key a ! (pr div 2))) a2 (pr - 1) 0 (pr - 1) = (a3, i)"
      by (cases "hoare_loop key (key (median3 key a ! (pr div 2))) a2 (pr - 1) 0 (pr - 1)") auto
    have "0 < pr - 1" using that(1) by (simp add: pr_def)
    from loop [OF this le_refl lp] have b: "i \<le> pr - 1" "length a3 = length a"
      by (simp_all add: a2_def swap_def median3_def cswap_def Let_def)
    have "l = take i (swap i (pr - 1) a3)" "r = drop (Suc i) (swap i (pr - 1) a3)"
      using that(2) lp unfolding qs_partition_def Let_def a2_def pr_def by simp_all
    then have "length l = min (length a) i" "length r = length a - Suc i"
      using b by (simp_all add: swap_def)
    then show ?thesis using b that(1) unfolding pr_def by arith
  qed
  show ?thesis
    by (relation "measure (\<lambda>(key, popped, cdepth, a). length a)") (auto dest: part)
qed

text \<open>\<^verbatim>\<open>np.argsort(keys)\<close>: the introsort of the indices \<open>0, ..., n - 1\<close>.\<close>

definition argsort :: "real list \<Rightarrow> nat list" where
  "argsort keys =
     introsort (\<lambda>i. keys ! i) True (2 * int (npy_get_msb (length keys))) [0..<length keys]"

section \<open>The uniform resampler\<close>

text \<open>\<^verbatim>\<open>pgtnp_px2[idxnext_p]\<close> with \<^verbatim>\<open>idxnext_p = (np.arange(pnum) + 1) % pnum\<close>.\<close>

definition pgtnext :: "point list \<Rightarrow> point list" where
  "pgtnext p = map (\<lambda>i. p ! ((i + 1) mod length p)) [0..<length p]"

definition sqdist :: "point \<Rightarrow> point \<Rightarrow> real" where
  "sqdist a b = (fst b - fst a)\<^sup>2 + (snd b - snd a)\<^sup>2"

text \<open>\<^verbatim>\<open>edgelen_p = np.sqrt(np.sum((pgtnext_px2 - pgtnp_px2) ** 2, axis=1))\<close>\<close>

definition edgelen :: "point list \<Rightarrow> real list" where
  "edgelen p = map2 (\<lambda>a b. sqrt (sqdist a b)) p (pgtnext p)"

text \<open>
  The loop that takes the excess \<open>passnum\<close> away again, walking \<open>edgeidxsort_p\<close> from
  its last entry (the longest edge) with the negative index \<open>id\<close>:
  \<^verbatim>\<open>
  while passnum > 0:
      edgeid = edgeidxsort_p[id]
      if edgenum[edgeid] > passnum:
          edgenum[edgeid] -= passnum
          passnum -= passnum
      else:
          passnum -= edgenum[edgeid] - 1
          edgenum[edgeid] -= edgenum[edgeid] - 1
          id -= 1
  \<close>
  Reading \<open>edgeidxsort_p[id]\<close> past the front of the array raises \<open>IndexError\<close>
  (the variable \<open>id\<close> is written \<open>idx\<close>, \<open>id\<close> being the identity function of HOL).
\<close>

function excess_loop :: "nat list \<Rightarrow> int list \<Rightarrow> int \<Rightarrow> int \<Rightarrow> error + int list" where
  "excess_loop edgeidxsort_p edgenum idx passnum =
     (if passnum > 0 then
        (case py_index edgeidxsort_p idx of
           Inl e \<Rightarrow> Inl e
         | Inr edgeid \<Rightarrow>
             if edgenum ! edgeid > passnum
             then excess_loop edgeidxsort_p (edgenum[edgeid := edgenum ! edgeid - passnum])
                    idx (passnum - passnum)
             else excess_loop edgeidxsort_p
                    (edgenum[edgeid := edgenum ! edgeid - (edgenum ! edgeid - 1)])
                    (idx - 1) (passnum - (edgenum ! edgeid - 1)))
      else Inr edgenum)"
  by pat_completeness auto
termination
  by (relation "measures [\<lambda>(s, en, i, pass). if pass > 0 then 1 else 0,
                          \<lambda>(s, en, i, pass). nat (int (length s) + i + 1)]")
     (auto simp: py_index_def Let_def split: if_splits)

text \<open>
  The per-edge counts of the subdivision branch, up to the assertion:
  rounding, the floor of one point per edge, and the correction of the sum.
  \<^verbatim>\<open>
  edgenum = np.round(edgelen_p * newpnum / np.sum(edgelen_p)).astype(np.int32)
  for i in range(pnum):
      if edgenum[i] == 0:
          edgenum[i] = 1
  edgenumsum = np.sum(edgenum)
  if edgenumsum != newpnum:
      if edgenumsum > newpnum:
          id = -1
          passnum = edgenumsum - newpnum
          while passnum > 0: ...
      else:
          id = -1
          edgeid = edgeidxsort_p[id]
          edgenum[edgeid] += newpnum - edgenumsum
  \<close>
  The counts lie between 0 and \<open>newpnum\<close>, so the cast to \<open>int32\<close> keeps them.
\<close>

definition edgenum_rounded :: "real list \<Rightarrow> int \<Rightarrow> int list" where
  "edgenum_rounded edgelen_p newpnum =
     map (\<lambda>l. np_round (l * of_int newpnum / sum_list edgelen_p)) edgelen_p"

definition floor_one :: "int list \<Rightarrow> int list" where
  "floor_one edgenum = map (\<lambda>c. if c = 0 then 1 else c) edgenum"

definition edgenum_final :: "real list \<Rightarrow> nat list \<Rightarrow> int \<Rightarrow> error + int list" where
  "edgenum_final edgelen_p edgeidxsort_p newpnum =
     (if edgelen_p \<noteq> [] \<and> sum_list edgelen_p = 0 then Inl NanCast
      else
        let edgenum = floor_one (edgenum_rounded edgelen_p newpnum);
            edgenumsum = sum_list edgenum
        in if edgenumsum \<noteq> newpnum then
             (if edgenumsum > newpnum then
                excess_loop edgeidxsort_p edgenum (- 1) (edgenumsum - newpnum)
              else
                (case py_index edgeidxsort_p (- 1) of
                   Inl e \<Rightarrow> Inl e
                 | Inr edgeid \<Rightarrow>
                     Inr (edgenum[edgeid := edgenum ! edgeid + (newpnum - edgenumsum)])))
           else Inr edgenum)"

text \<open>
  The points of one edge:
  \<^verbatim>\<open>
  wnp_kx1 = np.arange(edgenum[i], dtype=np.float32).reshape(-1, 1) / edgenum[i]
  pmids = pb_1x2 * (1 - wnp_kx1) + pe_1x2 * wnp_kx1
  \<close>
  \<open>np.arange\<close> of a count that is not positive is empty.
\<close>

definition pmids :: "point \<Rightarrow> point \<Rightarrow> int \<Rightarrow> point list" where
  "pmids pb pe m =
     map (\<lambda>k. let w = real k / of_int m
              in (fst pb * (1 - w) + fst pe * w, snd pb * (1 - w) + snd pe * w))
       [0..<nat m]"

text \<open>
  \<^verbatim>\<open>uniformsample(pgtnp_px2, newpnum)\<close>.  With more vertices than wanted the
  vertices of the shortest edges are dropped; otherwise every edge is subdivided.
  \<open>np.concatenate\<close> of an empty list raises \<open>ValueError\<close>.
\<close>

definition uniformsample :: "point list \<Rightarrow> int \<Rightarrow> error + point list" where
  "uniformsample pgtnp_px2 newpnum =
     (let pnum = length pgtnp_px2;
          pgtnext_px2 = pgtnext pgtnp_px2;
          edgelen_p = edgelen pgtnp_px2;
          edgeidxsort_p = argsort edgelen_p
      in if int pnum > newpnum then
           (let edgeidxkeep_k = drop (nat (int pnum - newpnum)) edgeidxsort_p;
                edgeidxsort_k = sort edgeidxkeep_k;
                pgtnp_kx2 = map (\<lambda>i. pgtnp_px2 ! i) edgeidxsort_k
            in if int (length pgtnp_kx2) = newpnum then Inr pgtnp_kx2 else Inl AssertionError)
         else
           (case edgenum_final edgelen_p edgeidxsort_p newpnum of
              Inl e \<Rightarrow> Inl e
            | Inr edgenum \<Rightarrow>
                if sum_list edgenum \<noteq> newpnum then Inl AssertionError
                else if pnum = 0 then Inl ValueError
                else Inr (concat (map (\<lambda>i. pmids (pgtnp_px2 ! i) (pgtnext_px2 ! i) (edgenum ! i))
                                   [0..<pnum]))))"

text \<open>The vertex indices the contraction branch keeps, in traversal order:
  \<^verbatim>\<open>edgeidxsort_k = np.sort(edgeidxsort_p[pnum - newpnum:])\<close>.\<close>

definition edgeidxsort_k :: "point list \<Rightarrow> int \<Rightarrow> nat list" where
  "edgeidxsort_k p n = sort (drop (nat (int (length p) - n)) (argsort (edgelen p)))"

section \<open>Sequencing of calls that may raise\<close>

text \<open>The first exception raised ends the computation.\<close>

definition bind_r :: "error + 'a \<Rightarrow> ('a \<Rightarrow> error + 'b) \<Rightarrow> error + 'b" where
  "bind_r m f = (case m of Inl e \<Rightarrow> Inl e | Inr x \<Rightarrow> f x)"

text \<open>A list comprehension or a \<^verbatim>\<open>for\<close> loop that appends one result per element.\<close>

fun map_result :: "('a \<Rightarrow> error + 'b) \<Rightarrow> 'a list \<Rightarrow> error + 'b list" where
  "map_result f [] = Inr []"
| "map_result f (x # xs) =
     bind_r (f x) (\<lambda>y. bind_r (map_result f xs) (\<lambda>ys. Inr (y # ys)))"

section \<open>The polygon normalizer\<close>

text \<open>\<^verbatim>\<open>np.array(p).reshape(-1, 2)\<close>: a flat coordinate list cut into rows of two; a list
  of odd length cannot be reshaped and raises \<open>ValueError\<close>.\<close>

fun rows2 :: "real list \<Rightarrow> point list" where
  "rows2 (x # y # rest) = (x, y) # rows2 rest"
| "rows2 _ = []"

definition reshape2 :: "real list \<Rightarrow> error + point list" where
  "reshape2 flat = (if even (length flat) then Inr (rows2 flat) else Inl ValueError)"

text \<open>\<^verbatim>\<open>np.min\<close> and \<^verbatim>\<open>np.max\<close> of a non-empty array (an empty one raises
  \<open>ValueError\<close>, which the callers below check first).\<close>

definition np_min :: "real list \<Rightarrow> real" where
  "np_min xs = fold min (tl xs) (hd xs)"

definition np_max :: "real list \<Rightarrow> real" where
  "np_max xs = fold max (tl xs) (hd xs)"

text \<open>\<^verbatim>\<open>np.roll(y, 1)\<close>: a cyclic shift to the right by one.\<close>

definition roll1 :: "'a list \<Rightarrow> 'a list" where
  "roll1 ys = (if ys = [] then [] else last ys # butlast ys)"

definition dot :: "real list \<Rightarrow> real list \<Rightarrow> real" where
  "dot xs ys = sum_list (map2 (*) xs ys)"

text \<open>\<^verbatim>\<open>_polygon_area\<close>, the shoelace formula:
  \<^verbatim>\<open>0.5 * np.abs(np.dot(x, np.roll(y, 1)) - np.dot(y, np.roll(x, 1)))\<close>\<close>

definition polygon_area :: "point list \<Rightarrow> real" where
  "polygon_area poly =
     (let x = map fst poly; y = map snd poly
      in 0.5 * \<bar>dot x (roll1 y) - dot y (roll1 x)\<bar>)"

text \<open>
  \<^verbatim>\<open>filter_tiny_polys\<close>: the loop keeps in \<open>polys_\<close> (here \<open>polys_kept\<close>) the
  polygons whose bounding box is at least one unit wide and high (\<open>np.min\<close> raises on
  a polygon without points), the comprehension after it those of area above 5.
\<close>

fun extent_pass :: "point list list \<Rightarrow> error + point list list" where
  "extent_pass [] = Inr []"
| "extent_pass (poly # polys) =
     (if poly = [] then Inl ValueError
      else
        let x_min = np_min (map fst poly); y_min = np_min (map snd poly);
            x_max = np_max (map fst poly); y_max = np_max (map snd poly)
        in bind_r (extent_pass polys) (\<lambda>polys_kept.
             Inr (if x_max - x_min \<ge> 1 \<and> y_max - y_min \<ge> 1 then poly # polys_kept else polys_kept)))"

definition filter_tiny_polys :: "point list list \<Rightarrow> error + point list list" where
  "filter_tiny_polys polys =
     bind_r (extent_pass polys) (\<lambda>polys_kept. Inr (filter (\<lambda>poly. polygon_area poly > 5) polys_kept))"

text \<open>
  Orientation.  \<^verbatim>\<open>Polygon(poly).exterior.is_ccw\<close> is code of the shapely library, not
  of this repository.  It is modelled as shapely computes it,
  \<^verbatim>\<open>signed_area(ring) >= 0.0\<close>: a ring is counter-clockwise when its signed area is
  not negative, so a ring of area zero counts as counter-clockwise.  \<open>signed_area2\<close> is
  twice that area (the shoelace sum without the absolute value, which in exact
  arithmetic is the sum shapely computes).
\<close>

definition signed_area2 :: "point list \<Rightarrow> real" where
  "signed_area2 poly =
     (\<Sum>i \<leftarrow> [0..<length poly].
        fst (poly ! i) * snd (poly ! ((i + 1) mod length poly))
        - fst (poly ! ((i + 1) mod length poly)) * snd (poly ! i))"

definition is_ccw :: "point list \<Rightarrow> bool" where
  "is_ccw poly = (0 \<le> signed_area2 poly)"

text \<open>
  \<^verbatim>\<open>get_cw_poly\<close>: \<^verbatim>\<open>poly[::-1] if Polygon(poly).exterior.is_ccw else poly\<close>.
  The \<open>Polygon\<close> constructor raises \<open>ValueError\<close> on fewer than three coordinate tuples.
\<close>

definition get_cw_poly :: "point list \<Rightarrow> error + point list" where
  "get_cw_poly poly =
     (if length poly < 3 then Inl ValueError
      else Inr (if is_ccw poly then rev poly else poly))"

section \<open>Canonical rotation\<close>

text \<open>
  \<^verbatim>\<open>unify_origin_polygon\<close>: the rows from the one nearest to the middle of the top side
  of the bounding box on, followed by the rows before it.
\<close>

definition unify_origin_polygon :: "point list \<Rightarrow> error + point list" where
  "unify_origin_polygon poly =
     (if poly = [] then Inl ValueError
      else
        let xmin = np_min (map fst poly); xmax = np_max (map fst poly);
            ymin = np_min (map snd poly); ymax = np_max (map snd poly);
            tcx = (xmin + xmax) / 2; tcy = ymin;
            dist = map (\<lambda>p. (fst p - tcx)\<^sup>2 + (snd p - tcy)\<^sup>2) poly
        in bind_r (argmin dist) (\<lambda>min_dist_idx.
             Inr (drop min_dist_idx poly @ take min_dist_idx poly)))"

text \<open>
  The slice \<^verbatim>\<open>a[::step]\<close>: every \<open>step\<close>-th row from the first one on, for a negative
  step every \<open>-step\<close>-th row from the last one backwards; a step of zero raises
  \<open>ValueError\<close>.
\<close>

definition every_nth :: "nat \<Rightarrow> 'a list \<Rightarrow> 'a list" where
  "every_nth k xs = map (\<lambda>i. xs ! (i * k)) [0..<(length xs + k - 1) div k]"

definition py_stride :: "int \<Rightarrow> 'a list \<Rightarrow> error + 'a list" where
  "py_stride step xs =
     (if step = 0 then Inl ValueError
      else if step > 0 then Inr (every_nth (nat step) xs)
      else Inr (every_nth (nat (- step)) (rev xs)))"

type_synonym bbox = "real \<times> real \<times> real \<times> real"

text \<open>
  \<^verbatim>\<open>unify_polygons\<close>, first part: the polygons that pass the filter, or the rectangle
  of the bounding box when none does.
  \<^verbatim>\<open>
  filtered_polygons = self.filter_tiny_polys(polygons)
  if len(filtered_polygons) == 0:
      xmin, ymin, xmax, ymax = gt_bbox[0], gt_bbox[1], gt_bbox[2], gt_bbox[3]
      tl = np.stack([xmin, ymin]); bl = np.stack([xmin, ymax])
      br = np.stack([xmax, ymax]); tr = np.stack([xmax, ymin])
      filtered_polygons = [np.stack([tl, bl, br, tr])]
  \<close>
\<close>

definition filtered_polygons :: "point list list \<Rightarrow> bbox \<Rightarrow> error + point list list" where
  "filtered_polygons polygons gt_bbox =
     bind_r (filter_tiny_polys polygons) (\<lambda>filtered.
       if length filtered = 0 then
         (case gt_bbox of (xmin, ymin, xmax, ymax) \<Rightarrow>
            let tl = (xmin, ymin); bl = (xmin, ymax); br = (xmax, ymax); tr = (xmax, ymin)
            in Inr [[tl, bl, br, tr]])
       else Inr filtered)"

text \<open>
  The body of the loop of \<^verbatim>\<open>unify_polygons\<close> for one polygon:
  \<^verbatim>\<open>
  sampled_polygon = self.uniformsample(polygon, self.spline_poly_num)
  tt_idx = np.argmin(np.power(sampled_polygon - sampled_polygon[0], 2).sum(axis=1))
  valid_polygon = np.roll(sampled_polygon, -tt_idx, axis=0)[:: self.spline_num]
  cw_valid_polygon = self.get_cw_poly(valid_polygon)
  unify_origin_polygon = self.unify_origin_polygon(cw_valid_polygon)
  valid_polygons.append(unify_origin_polygon.reshape(-1, 2))
  valid_weights.append(np.ones((self.num_points, 1)))
  \<close>
  \<open>sampled_polygon[0]\<close> raises \<open>IndexError\<close> on an empty sample, \<open>np.ones\<close> raises
  \<open>ValueError\<close> on a negative length.
\<close>

definition unify_one :: "config \<Rightarrow> point list \<Rightarrow> error + point list \<times> real list" where
  "unify_one cfg polygon =
     bind_r (uniformsample polygon (spline_poly_num cfg)) (\<lambda>sampled_polygon.
     bind_r (py_index sampled_polygon 0) (\<lambda>first.
     bind_r (argmin (map (\<lambda>p. sqdist first p) sampled_polygon)) (\<lambda>tt_idx.
     bind_r (py_stride (spline_num cfg) (roll_left tt_idx sampled_polygon)) (\<lambda>valid_polygon.
     bind_r (get_cw_poly valid_polygon) (\<lambda>cw_valid_polygon.
     bind_r (unify_origin_polygon cw_valid_polygon) (\<lambda>unify_origin.
       if num_points cfg < 0 then Inl ValueError
       else Inr (unify_origin, replicate (nat (num_points cfg)) 1)))))))"

text \<open>
  \<^verbatim>\<open>unify_polygons(polygons, gt_bbox)\<close>.  The loop runs over \<open>polygons\<close>, the reshaped
  raw polygons, as in the source: \<open>filtered_polygons\<close> is computed (and can raise) but
  is not read again.
\<close>

definition unify_polygons ::
    "config \<Rightarrow> real list list \<Rightarrow> bbox \<Rightarrow> error + point list list \<times> real list list" where
  "unify_polygons cfg raw gt_bbox =
     bind_r (map_result reshape2 raw) (\<lambda>polygons.
     bind_r (filtered_polygons polygons gt_bbox) (\<lambda>filtered.
     bind_r (map_result (unify_one cfg) polygons) (\<lambda>valid.
       Inr (map fst valid, map snd valid))))"


section \<open>The simplifier\<close>

text \<open>\<^verbatim>\<open>np.zeros(..., dtype=np.int)\<close> stores a float by dropping its fraction.\<close>

definition trunc_int :: "real \<Rightarrow> int" where
  "trunc_int x = (if 0 \<le> x then \<lfloor>x\<rfloor> else \<lceil>x\<rceil>)"

type_synonym ipoint = "int \<times> int"

text \<open>
  The row that becomes the first one: the lowest \<open>y\<close>, and among the rows of that \<open>y\<close>
  the first of least \<open>x\<close>.
  \<^verbatim>\<open>
  min_y = np.min(poly[:, 1])
  min_idy = np.where(poly[:, 1] == min_y)[0]
  min_idx = np.argmin(poly[:, 0][min_idy])
  min_index = min_idy[min_idx]
  \<close>
\<close>

definition min_index :: "point list \<Rightarrow> error + nat" where
  "min_index poly =
     (if poly = [] then Inl ValueError
      else
        let min_y = np_min (map snd poly);
            min_idy = filter (\<lambda>i. snd (poly ! i) = min_y) [0..<length poly]
        in bind_r (argmin (map (\<lambda>i. fst (poly ! i)) min_idy)) (\<lambda>min_idx.
             Inr (min_idy ! min_idx)))"

text \<open>
  The body of the loop of \<^verbatim>\<open>process_polygons_m\<close> for one polygon that passed the
  guard.  \<^verbatim>\<open>Polygon(...).simplify(0.5).exterior.coords\<close> is code of the shapely
  library; the function \<open>simplify\<close> stands for it.  The threshold \<open>_thres\<close> is 64
  unless \<open>num_points\<close> is positive.
\<close>

definition thres :: "config \<Rightarrow> nat" where
  "thres cfg = (if num_points cfg \<le> 0 then 64 else nat (num_points cfg))"

definition process_one_m ::
    "config \<Rightarrow> (point list \<Rightarrow> point list) \<Rightarrow> real list \<Rightarrow> error + ipoint list \<times> int list" where
  "process_one_m cfg simplify polygon =
     (let poly = simplify (rows2 polygon)
      in bind_r (py_index poly 0) (\<lambda>first.
         bind_r (py_index poly (- 1)) (\<lambda>final.
           let poly = (if first = final then butlast poly else poly)
           in bind_r (min_index poly) (\<lambda>k.
                let poly = roll_left k poly;
                    poly = (if length poly > thres cfg
                            then map (\<lambda>i. poly ! i)
                                   (sort (drop (length poly - thres cfg) (argsort (edgelen poly))))
                            else poly)
                in Inr (map (\<lambda>p. (trunc_int (fst p), trunc_int (snd p))) poly
                          @ replicate (thres cfg - length poly) (0, 0),
                        replicate (length poly) 1 @ replicate (thres cfg - length poly) 0)))))"

text \<open>
  \<^verbatim>\<open>process_polygons_m\<close>: only a flat list of even length with at least six
  coordinates passes the guard
  \<^verbatim>\<open>if len(polygon) % 2 == 0 and len(polygon) >= 6\<close>.
\<close>

definition well_formed :: "real list \<Rightarrow> bool" where
  "well_formed polygon = (length polygon mod 2 = 0 \<and> length polygon \<ge> 6)"

definition process_polygons_m ::
    "config \<Rightarrow> (point list \<Rightarrow> point list) \<Rightarrow> real list list
       \<Rightarrow> error + ipoint list list \<times> int list list" where
  "process_polygons_m cfg simplify polygons =
     bind_r (map_result (process_one_m cfg simplify) (filter well_formed polygons)) (\<lambda>valid.
       Inr (map fst valid, map snd valid))"

section \<open>The correspondence matcher\<close>

text \<open>\<^verbatim>\<open>cdist(_poly, _poly2)\<close>: the matrix of Euclidean distances, one row per point
  of \<open>_poly\<close>.\<close>

definition cdist :: "point list \<Rightarrow> point list \<Rightarrow> real list list" where
  "cdist ps qs = map (\<lambda>p. map (\<lambda>q. sqrt (sqdist p q)) qs) ps"

text \<open>
  A fancy-index assignment \<^verbatim>\<open>a[rows] = vals\<close>, and a fancy-index read
  \<^verbatim>\<open>a[cols]\<close>; an index beyond the array raises \<open>IndexError\<close>.
\<close>

definition assign_rows :: "'a list \<Rightarrow> nat list \<Rightarrow> 'a list \<Rightarrow> error + 'a list" where
  "assign_rows xs rows vals =
     (if list_all (\<lambda>r. r < length xs) rows
      then Inr (fold (\<lambda>rv acc. acc[fst rv := snd rv]) (zip rows vals) xs)
      else Inl IndexError)"

definition take_rows :: "'a list \<Rightarrow> nat list \<Rightarrow> error + 'a list" where
  "take_rows xs cols =
     (if list_all (\<lambda>c. c < length xs) cols then Inr (map (\<lambda>c. xs ! c) cols)
      else Inl IndexError)"

text \<open>
  The body of the matching loop of \<^verbatim>\<open>_load_masks\<close> for one polygon.
  \<^verbatim>\<open>linear_sum_assignment\<close> is code of scipy; the function \<open>lsa\<close> stands for it and
  returns the matched (row, column) pairs.
  \<^verbatim>\<open>
  _poly2 = _poly2[(_poly_weight2 > 0).reshape(-1)]
  dis = cdist(_poly, _poly2)
  matched_row_inds, matched_col_inds = linear_sum_assignment(dis)
  _poly[matched_row_inds] = _poly2[matched_col_inds]
  _label = np.ones((self.num_points, 1), dtype=int)
  _label[matched_row_inds] = self.key_points_weight
  \<close>
  The assignment into the array of dtype \<open>int\<close> casts the weight: numpy drops the
  fractional part (\<open>trunc_int\<close>).
\<close>

definition real_keypoints :: "ipoint list \<Rightarrow> int list \<Rightarrow> point list" where
  "real_keypoints poly2 poly_weight2 =
     map (\<lambda>pw. (of_int (fst (fst pw)), of_int (snd (fst pw))))
       (filter (\<lambda>pw. snd pw > 0) (zip poly2 poly_weight2))"

definition match_one ::
    "config \<Rightarrow> (real list list \<Rightarrow> (nat \<times> nat) list) \<Rightarrow> point list \<Rightarrow> ipoint list \<Rightarrow> int list
       \<Rightarrow> error + point list \<times> int list" where
  "match_one cfg lsa poly poly2 poly_weight2 =
     (let keypoints = real_keypoints poly2 poly_weight2;
          dis = cdist poly keypoints;
          matched = lsa dis;
          matched_row_inds = map fst matched;
          matched_col_inds = map snd matched
      in bind_r (take_rows keypoints matched_col_inds) (\<lambda>vals.
         bind_r (assign_rows poly matched_row_inds vals) (\<lambda>poly'.
           if num_points cfg < 0 then Inl ValueError
           else
             bind_r (assign_rows (replicate (nat (num_points cfg)) 1) matched_row_inds
                       (replicate (length matched_row_inds) (trunc_int (key_points_weight cfg))))
               (\<lambda>label. Inr (poly', label)))))"

text \<open>
  The body of the loop of \<^verbatim>\<open>_load_masks\<close> over the instances.  With a positive
  \<open>spline_num\<close> the raw polygons go through \<open>unify_polygons\<close> first and through
  \<open>process_polygons_m\<close> second, and the two results are read at the same index.
\<close>

definition load_instance ::
    "config \<Rightarrow> (point list \<Rightarrow> point list) \<Rightarrow> (real list list \<Rightarrow> (nat \<times> nat) list)
       \<Rightarrow> bbox list \<Rightarrow> nat \<Rightarrow> real list list \<Rightarrow> error + point list list \<times> int list list" where
  "load_instance cfg simplify lsa gt_bboxes i gt_mask =
     (if spline_num cfg > 0 then
        bind_r (py_index gt_bboxes (int i)) (\<lambda>gt_bbox.
        bind_r (unify_polygons cfg gt_mask gt_bbox) (\<lambda>unified.
        bind_r (process_polygons_m cfg simplify gt_mask) (\<lambda>simplified.
        bind_r (map_result
                  (\<lambda>idx. bind_r (py_index (fst simplified) (int idx)) (\<lambda>poly2.
                          bind_r (py_index (snd simplified) (int idx)) (\<lambda>poly_weight2.
                            match_one cfg lsa (fst unified ! idx) poly2 poly_weight2)))
                  [0..<length (fst unified)]) (\<lambda>matched.
          Inr (map fst matched, map snd matched)))))
      else
        bind_r (process_polygons_m cfg simplify gt_mask) (\<lambda>simplified.
          Inr (map (map (\<lambda>p. (of_int (fst p), of_int (snd p)))) (fst simplified),
               snd simplified)))"

section \<open>The mask rasterizer\<close>

text \<open>An array of any rank: its shape and its entries in row-major order.\<close>

record ndarray =
  shape :: "nat list"
  entries :: "real list"

definition zeros :: "nat list \<Rightarrow> ndarray" where
  "zeros shp = \<lparr>shape = shp, entries = replicate (prod_list shp) 0\<rparr>"

text \<open>
  \<^verbatim>\<open>np.array([...], dtype=np.float32).sum(0)\<close> of the decoded masks.  Arrays of one
  shape are stacked and summed entry by entry; arrays of different shapes cannot be
  stacked (\<open>ValueError\<close>); of an empty list the array has shape \<open>(0,)\<close> and its sum is
  the scalar 0, of shape \<open>()\<close>.
\<close>

definition mask_sum :: "ndarray list \<Rightarrow> error + ndarray" where
  "mask_sum masks =
     (case masks of
        [] \<Rightarrow> Inr \<lparr>shape = [], entries = [0]\<rparr>
      | m # ms \<Rightarrow>
          if list_all (\<lambda>a. shape a = shape m) ms
          then Inr \<lparr>shape = shape m,
                    entries = fold (\<lambda>a acc. map2 (+) acc (entries a)) ms (entries m)\<rparr>
          else Inl ValueError)"

text \<open>
  \<^verbatim>\<open>
  gt_poly_masks = np.array([...], dtype=np.float32).sum(0)
  if gt_poly_masks.shape != (h, w):
      print(gt_poly_masks.shape)
      gt_poly_masks = np.zeros((h, w), dtype=np.float32)
  \<close>
\<close>

definition gt_poly_masks :: "nat \<Rightarrow> nat \<Rightarrow> ndarray list \<Rightarrow> error + ndarray" where
  "gt_poly_masks h w masks =
     bind_r (mask_sum masks) (\<lambda>summed.
       if shape summed \<noteq> [h, w] then Inr (zeros [h, w]) else Inr summed)"

text \<open>
  \<^verbatim>\<open>_load_masks\<close>.  \<open>decode\<close> stands for \<^verbatim>\<open>self._poly2mask(mask, h, w)\<close>, which for a
  list of polygons is
  \<^verbatim>\<open>maskUtils.decode(maskUtils.merge(maskUtils.frPyObjects(mask_ann, img_h, img_w)))\<close>,
  three calls into pycocotools.  They raise on an annotation they cannot rasterize (a
  \<open>TypeError\<close> on a polygon of four numbers, which is taken for a box), so \<open>decode\<close>
  returns an error or an array.  With \<open>poly2mask\<close> every annotation is decoded before
  the first polygon is resampled.  Outside training the annotations are passed on as
  they are (\<open>None\<close>); in training the result holds the polygons and weights of every
  instance and, with \<open>poly2mask\<close>, the summed raster.
\<close>

definition load_masks ::
    "config \<Rightarrow> (point list \<Rightarrow> point list) \<Rightarrow> (real list list \<Rightarrow> (nat \<times> nat) list)
       \<Rightarrow> (real list list \<Rightarrow> error + ndarray) \<Rightarrow> nat \<Rightarrow> nat \<Rightarrow> real list list list
       \<Rightarrow> bbox list
       \<Rightarrow> error + ((point list list \<times> int list list) list \<times> ndarray option) option" where
  "load_masks cfg simplify lsa decode h w gt_masks gt_bboxes =
     (if \<not> training cfg then Inr None
      else
        bind_r (if poly2mask cfg
                then bind_r (map_result decode gt_masks) (\<lambda>decoded.
                     bind_r (gt_poly_masks h w decoded) (\<lambda>m. Inr (Some m)))
                else Inr None) (\<lambda>raster.
        bind_r (map_result (\<lambda>i. load_instance cfg simplify lsa gt_bboxes i (gt_masks ! i))
                  [0..<length gt_masks]) (\<lambda>instances.
          Inr (Some (instances, raster)))))"

section \<open>Concrete inputs\<close>

text \<open>Two polygons for the concrete checks: the square of the specification's scenario,
  and a pentagon with three edges of equal length.\<close>

definition square10 :: "point list" where
  "square10 = [(0, 0), (0, 10), (10, 10), (10, 0)]"


definition pentagon :: "point list" where
  "pentagon = [(0, 0), (0, 3), (0, 10), (10, 10), (10, 0)]"

text \<open>A ring of 20 vertices, all of whose edges have length 1: the boundary of the
  rectangle of width 9 and height 1, with a vertex at every integer point.\<close>

definition ring20 :: "point list" where
  "ring20 = [(0, 0), (1, 0), (2, 0), (3, 0), (4, 0), (5, 0), (6, 0), (7, 0), (8, 0), (9, 0),
             (9, 1), (8, 1), (7, 1), (6, 1), (5, 1), (4, 1), (3, 1), (2, 1), (1, 1), (0, 1)]"

text \<open>
  The selection of the contraction branch as the specification words it, for comparison
  with \<open>edgeidxsort_k\<close>: the edges are ranked by a stable sort on their length, so that
  edges of equal length stay in index order, and the vertices of the \<open>newpnum\<close> last
  ones are kept.
\<close>

definition stable_argsort :: "real list \<Rightarrow> nat list" where
  "stable_argsort keys = sort_key (\<lambda>i. keys ! i) [0..<length keys]"

definition spec_edgeidxsort_k :: "point list \<Rightarrow> int \<Rightarrow> nat list" where
  "spec_edgeidxsort_k p n = sort (drop (nat (int (length p) - n)) (stable_argsort (edgelen p)))"

text \<open>Configurations and raw polygons for the concrete checks: two configurations that
  differ in \<open>spline_num\<close>, the square as a flat coordinate list, and two squares of
  area 4 and 1, which the filter rejects.\<close>

definition cfg10 :: config where
  "cfg10 = \<lparr>num_points = 4, spline_num = 10, key_points_weight = 2,
            training = True, poly2mask = True\<rparr>"

definition cfg5 :: config where
  "cfg5 = \<lparr>num_points = 4, spline_num = 5, key_points_weight = 2,
           training = True, poly2mask = True\<rparr>"

definition square10_flat :: "real list" where
  "square10_flat = [0, 0, 0, 10, 10, 10, 10, 0]"

definition tiny_a :: "real list" where
  "tiny_a = [0, 0, 2, 0, 2, 2, 0, 2]"

definition tiny_b :: "real list" where
  "tiny_b = [5, 5, 6, 5, 6, 6, 5, 6]"

section \<open>Properties of the resampler\<close>

lemma length_pgtnext: "length (pgtnext p) = length p"
  by (simp add: pgtnext_def)

lemma length_edgelen: "length (edgelen p) = length p"
  by (simp add: edgelen_def length_pgtnext)

declare excess_loop.simps [simp del]

lemma py_index_neg:
  "idx < 0 \<Longrightarrow> 0 \<le> int (length xs) + idx \<Longrightarrow> py_index xs idx = Inr (xs ! nat (int (length xs) + idx))"
  by (simp add: py_index_def Let_def)

lemma sum_list_map_unchanged:
  "e \<notin> set xs \<Longrightarrow> (\<Sum>x\<leftarrow>xs. (en[e := v]) ! x - (1::int)) = (\<Sum>x\<leftarrow>xs. en ! x - 1)"
  by (induction xs) auto

lemma sum_list_update_int:
  "k < length xs \<Longrightarrow> sum_list (xs[k := (v::int)]) = sum_list xs + v - xs ! k"
  by (induction xs arbitrary: k) (auto split: nat.splits)

lemma excess_loop_ok:
  assumes "distinct srt" "set srt \<subseteq> {..<length en}" "\<forall>c \<in> set en. 1 \<le> c"
    and "idx < 0" "0 \<le> int (length srt) + idx + 1" "0 \<le> pass"
    and "pass \<le> (\<Sum>e \<leftarrow> take (nat (int (length srt) + idx + 1)) srt. en ! e - 1)"
  shows "\<exists>en'. excess_loop srt en idx pass = Inr en' \<and> length en' = length en
            \<and> sum_list en' = sum_list en - pass \<and> (\<forall>c \<in> set en'. 1 \<le> c)"
  using assms
proof (induction srt en idx pass rule: excess_loop.induct)
  case (1 srt en idx pass)
  show ?case
  proof (cases "pass > 0")
    case False
    with 1 show ?thesis by (simp add: excess_loop.simps)
  next
    case True
    define m where "m = nat (int (length srt) + idx + 1)"
    have m_pos: "0 < m"
    proof (rule ccontr)
      assume "\<not> 0 < m"
      then have "m = 0" by simp
      with "1.prems"(7) True show False by (simp add: m_def)
    qed
    have m_le: "m \<le> length srt" using "1.prems"(4) by (simp add: m_def)
    have idx_ok: "0 \<le> int (length srt) + idx" using m_pos by (simp add: m_def)
    define e where "e = srt ! (m - 1)"
    have nat_eq: "nat (int (length srt) + idx) = m - 1" by (simp add: m_def nat_diff_distrib idx_ok)
    have pyi: "py_index srt idx = Inr e"
      using py_index_neg [OF "1.prems"(4) idx_ok] by (simp add: e_def nat_eq)
    have e_lt: "e < length en"
      using "1.prems"(2) m_pos m_le by (auto simp: e_def subset_iff)
    have take_m: "take m srt = take (m - 1) srt @ [e]"
      using m_pos m_le by (metis Suc_pred' e_def less_le_trans diff_less take_Suc_conv_app_nth zero_less_one
          Suc_le_lessD Suc_pred)
    have e_notin: "e \<notin> set (take (m - 1) srt)"
    proof
      assume "e \<in> set (take (m - 1) srt)"
      then obtain j where j: "j < m - 1" "srt ! j = e"
        by (auto simp: in_set_conv_nth)
      with "1.prems"(1) m_le m_pos show False
        by (auto simp: e_def distinct_conv_nth)
    qed
    have slack: "(\<Sum>x\<leftarrow>take m srt. en ! x - 1) = (\<Sum>x\<leftarrow>take (m - 1) srt. en ! x - 1) + (en ! e - 1)"
      by (simp add: take_m)
    have e_ge: "1 \<le> en ! e" using "1.prems"(3) e_lt by simp
    show ?thesis
    proof (cases "en ! e > pass")
      case big: True
      have "excess_loop srt en idx pass = Inr (en[e := en ! e - pass])"
        using True big pyi by (simp add: excess_loop.simps [of srt en idx pass] excess_loop.simps [of srt _ idx 0])
      moreover have "sum_list (en[e := en ! e - pass]) = sum_list en - pass"
        using e_lt by (simp add: sum_list_update_int)
      moreover have "\<forall>c \<in> set (en[e := en ! e - pass]). 1 \<le> c"
        using "1.prems"(3) big set_update_subset_insert [of en e "en ! e - pass"] by auto
      ultimately show ?thesis by simp
    next
      case small: False
      let ?en = "en[e := en ! e - (en ! e - 1)]"
      let ?pass = "pass - (en ! e - 1)"
      have unfold: "excess_loop srt en idx pass = excess_loop srt ?en (idx - 1) ?pass"
        using True small pyi by (simp add: excess_loop.simps [of srt en idx pass])
      have p1: "set srt \<subseteq> {..<length ?en}" using "1.prems"(2) by simp
      have p2: "\<forall>c \<in> set ?en. 1 \<le> c"
        using "1.prems"(3) set_update_subset_insert [of en e "en ! e - (en ! e - 1)"] by auto
      have p3: "idx - 1 < 0" using "1.prems"(4) by simp
      have p4: "0 \<le> int (length srt) + (idx - 1) + 1" using idx_ok by simp
      have p5: "0 \<le> ?pass" using small by simp
      have m1: "nat (int (length srt) + (idx - 1) + 1) = m - 1" using nat_eq by simp
      have p6: "?pass \<le> (\<Sum>x \<leftarrow> take (nat (int (length srt) + (idx - 1) + 1)) srt. ?en ! x - 1)"
        using "1.prems"(7) slack sum_list_map_unchanged [OF e_notin, of en] 
        unfolding m1 m_def [symmetric] by simp
      from "1.IH"(2) [OF True pyi small "1.prems"(1) p1 p2 p3 p4 p5 p6]
      obtain en' where en': "excess_loop srt ?en (idx - 1) ?pass = Inr en'" "length en' = length ?en"
        "sum_list en' = sum_list ?en - ?pass" "\<forall>c \<in> set en'. 1 \<le> c"
        by blast
      have "sum_list ?en = sum_list en + 1 - en ! e"
        using e_lt by (simp add: sum_list_update_int)
      with en' unfold show ?thesis by simp
    qed
  qed
qed

text \<open>The introsort returns a permutation of its input in ascending order of the keys.\<close>

declare npy_get_msb.simps [simp del] scan_up.simps [simp del] hoare_loop.simps [simp del]
  introsort.simps [simp del]

lemma scan_down_le: "scan_down key vp a jp \<le> jp"
  by (induction jp) auto

lemma scan_down_less: "0 < jp \<Longrightarrow> scan_down key vp a jp < jp"
  by (cases jp) (auto simp: le_imp_less_Suc scan_down_le)

lemma scan_up_greater: "ip < scan_up key vp a hi ip"
proof (induction key vp a hi ip rule: scan_up.induct)
  case (1 key vp a hi ip)
  show ?case
  proof (cases "Suc ip < hi \<and> key (a ! Suc ip) < vp")
    case True
    then have "scan_up key vp a hi ip = scan_up key vp a hi (Suc ip)"
      by (subst scan_up.simps) simp
    with 1 True show ?thesis by simp
  next
    case False
    then have "scan_up key vp a hi ip = Suc ip"
      by (subst scan_up.simps) auto
    then show ?thesis by simp
  qed
qed


lemma length_swap [simp]: "length (swap i j xs) = length xs"
  by (simp add: swap_def)

lemma mset_swap' : "i < length xs \<Longrightarrow> j < length xs \<Longrightarrow> mset (swap i j xs) = mset xs"
  by (simp add: swap_def mset_swap)

lemma nth_swap:
  "i < length xs \<Longrightarrow> j < length xs \<Longrightarrow> k < length xs \<Longrightarrow>
     swap i j xs ! k = (if k = j then xs ! i else if k = i then xs ! j else xs ! k)"
  by (auto simp: swap_def nth_list_update)

lemma length_cswap [simp]: "length (cswap key i j a) = length a"
  by (simp add: cswap_def)

lemma mset_cswap: "i < length a \<Longrightarrow> j < length a \<Longrightarrow> mset (cswap key i j a) = mset a"
  by (simp add: cswap_def mset_swap')

lemma cswap_other:
  "i < length a \<Longrightarrow> j < length a \<Longrightarrow> k < length a \<Longrightarrow> k \<noteq> i \<Longrightarrow> k \<noteq> j \<Longrightarrow>
     cswap key i j a ! k = a ! k"
  by (simp add: cswap_def nth_swap)

lemma cswap_keys:
  assumes "i < length a" "j < length a" "i \<noteq> j"
  shows "key (cswap key i j a ! i) = max (key (a ! i)) (key (a ! j))"
    and "key (cswap key i j a ! j) = min (key (a ! i)) (key (a ! j))"
  using assms by (auto simp: cswap_def nth_swap)

lemma length_median3 [simp]: "length (median3 key a) = length a"
  by (simp add: median3_def Let_def)

lemma mset_median3:
  assumes "a \<noteq> []"
  shows "mset (median3 key a) = mset a"
proof -
  have "(length a - 1) div 2 < length a" "length a - 1 < length a" "0 < length a"
    using assms by (auto simp: less_Suc_eq_le intro: le_less_trans [OF div_le_dividend])
  then show ?thesis by (simp add: median3_def Let_def mset_cswap)
qed

lemma median3_ordered:
  assumes "3 \<le> length a"
  defines "pr \<equiv> length a - 1" and "pm \<equiv> (length a - 1) div 2"
  shows "key (median3 key a ! 0) \<le> key (median3 key a ! pm)
       \<and> key (median3 key a ! pm) \<le> key (median3 key a ! pr)"
proof -
  have b: "0 < pm" "pm < pr" "pr < length a" "pm < length a" "0 < length a"
    using assms(1) by (auto simp: pm_def pr_def)
  define a1 where "a1 = cswap key pm 0 a"
  define a2 where "a2 = cswap key pr pm a1"
  define a3 where "a3 = cswap key pm 0 a2"
  have m: "median3 key a = a3"
    by (simp add: median3_def Let_def pm_def pr_def a1_def a2_def a3_def)
  have l: "length a1 = length a" "length a2 = length a" by (simp_all add: a1_def a2_def)
  have k1: "key (a1 ! 0) \<le> key (a1 ! pm)"
    unfolding a1_def using cswap_keys [of pm a 0 key] b by simp
  have k2: "key (a2 ! pr) = max (key (a1 ! pr)) (key (a1 ! pm))"
    "key (a2 ! pm) = min (key (a1 ! pr)) (key (a1 ! pm))"
    unfolding a2_def using cswap_keys [of pr a1 pm key] b l by simp_all
  have k20: "a2 ! 0 = a1 ! 0"
    unfolding a2_def using cswap_other [of pr a1 pm 0 key] b l by simp
  have k3: "key (a3 ! pm) = max (key (a2 ! pm)) (key (a2 ! 0))"
    "key (a3 ! 0) = min (key (a2 ! pm)) (key (a2 ! 0))"
    unfolding a3_def using cswap_keys [of pm a2 0 key] b l by simp_all
  have k3r: "a3 ! pr = a2 ! pr"
    unfolding a3_def using cswap_other [of pm a2 0 pr key] b l by simp
  show ?thesis unfolding m using k1 k2 k20 k3 k3r by (auto simp: min_def max_def)
qed


lemma scan_up_spec:
  assumes "ip < b" "b \<le> hi" "\<not> key (a ! b) < vp"
  shows "ip < scan_up key vp a hi ip \<and> scan_up key vp a hi ip \<le> b
       \<and> \<not> key (a ! scan_up key vp a hi ip) < vp
       \<and> (\<forall>k. ip < k \<and> k < scan_up key vp a hi ip \<longrightarrow> key (a ! k) < vp)"
  using assms
proof (induction key vp a hi ip rule: scan_up.induct)
  case (1 key vp a hi ip)
  show ?case
  proof (cases "Suc ip < hi \<and> key (a ! Suc ip) < vp")
    case True
    then have eq: "scan_up key vp a hi ip = scan_up key vp a hi (Suc ip)"
      by (subst scan_up.simps) simp
    have "Suc ip \<noteq> b" using True "1.prems"(3) by auto
    then have "Suc ip < b" using "1.prems"(1) by simp
    from "1.IH" [OF True this "1.prems"(2,3)]
    have ih: "Suc ip < scan_up key vp a hi (Suc ip)" "scan_up key vp a hi (Suc ip) \<le> b"
      "\<not> key (a ! scan_up key vp a hi (Suc ip)) < vp"
      "\<forall>k. Suc ip < k \<and> k < scan_up key vp a hi (Suc ip) \<longrightarrow> key (a ! k) < vp"
      by simp_all
    have "key (a ! k) < vp" if "ip < k" "k < scan_up key vp a hi (Suc ip)" for k
    proof (cases "k = Suc ip")
      case True
      then show ?thesis using \<open>Suc ip < hi \<and> key (a ! Suc ip) < vp\<close> by simp
    next
      case False
      then have "Suc ip < k" using that(1) by simp
      then show ?thesis using ih(4) that(2) by simp
    qed
    then show ?thesis unfolding eq using ih by auto
  next
    case False
    then have eq: "scan_up key vp a hi ip = Suc ip"
      by (subst scan_up.simps) auto
    have "\<not> key (a ! Suc ip) < vp"
    proof (cases "Suc ip < hi")
      case True
      with False show ?thesis by simp
    next
      case False
      then have "Suc ip = b" using "1.prems"(1,2) by simp
      then show ?thesis using "1.prems"(3) by simp
    qed
    then show ?thesis unfolding eq using "1.prems"(1) by auto
  qed
qed

lemma scan_down_spec:
  assumes "c < jp" "\<not> vp < key (a ! c)"
  shows "scan_down key vp a jp < jp \<and> c \<le> scan_down key vp a jp
       \<and> \<not> vp < key (a ! scan_down key vp a jp)
       \<and> (\<forall>k. scan_down key vp a jp < k \<and> k < jp \<longrightarrow> vp < key (a ! k))"
  using assms
proof (induction jp)
  case 0
  then show ?case by simp
next
  case (Suc jp)
  show ?case
  proof (cases "vp < key (a ! jp)")
    case True
    then have "c \<noteq> jp" using Suc.prems(2) by auto
    then have "c < jp" using Suc.prems(1) by simp
    from Suc.IH [OF this Suc.prems(2)] True show ?thesis
      by (auto simp: less_Suc_eq)
  next
    case False
    then show ?thesis using Suc.prems(1) by auto
  qed
qed

lemma hoare_loop_spec:
  assumes "hoare_loop key vp a hi ip jp = (a', r)"
    and "ip < jp" "jp \<le> hi" "hi < length a"
    and "\<forall>k \<le> ip. key (a ! k) \<le> vp"
    and "\<forall>k. jp \<le> k \<and> k < length a \<longrightarrow> vp \<le> key (a ! k)"
  shows "length a' = length a \<and> mset a' = mset a \<and> r \<le> hi \<and> a' ! hi = a ! hi
       \<and> (\<forall>k < r. key (a' ! k) \<le> vp)
       \<and> (\<forall>k. r \<le> k \<and> k < length a \<longrightarrow> vp \<le> key (a' ! k))"
  using assms
proof (induction key vp a hi ip jp arbitrary: a' r rule: hoare_loop.induct)
  case (1 key vp a hi ip jp)
  define i where "i = scan_up key vp a hi ip"
  define j where "j = scan_down key vp a jp"
  have nb: "\<not> key (a ! jp) < vp" using "1.prems"(3,4,6) by (auto simp: not_less)
  from scan_up_spec [where key = key and a = a and vp = vp, OF "1.prems"(2,3) nb]
  have i: "ip < i" "i \<le> jp" "\<not> key (a ! i) < vp" "\<forall>k. ip < k \<and> k < i \<longrightarrow> key (a ! k) < vp"
    by (simp_all add: i_def)
  have nc: "\<not> vp < key (a ! ip)" using "1.prems"(5) by (auto simp: not_less)
  from scan_down_spec [where key = key and a = a and vp = vp, OF "1.prems"(2) nc]
  have j: "j < jp" "ip \<le> j" "\<not> vp < key (a ! j)" "\<forall>k. j < k \<and> k < jp \<longrightarrow> vp < key (a ! k)"
    by (simp_all add: j_def)
  have left: "key (a ! k) \<le> vp" if "k < i" for k
    using that i(4) "1.prems"(5) by (cases "k \<le> ip") (auto simp: not_le less_imp_le)
  have right: "vp \<le> key (a ! k)" if "j < k" "k < length a" for k
    using that j(4) "1.prems"(6) by (cases "k < jp") (auto simp: not_less less_imp_le)
  show ?case
  proof (cases "i \<ge> j")
    case True
    then have "hoare_loop key vp a hi ip jp = (a, i)"
      by (subst hoare_loop.simps) (simp add: Let_def i_def j_def)
    with "1.prems"(1) have res: "a' = a" "r = i" by simp_all
    have "vp \<le> key (a ! k)" if "i \<le> k" "k < length a" for k
    proof (cases "k = i")
      case True
      then show ?thesis using i(3) by (simp add: not_less)
    next
      case False
      then have "j < k" using that(1) \<open>i \<ge> j\<close> by simp
      then show ?thesis using right that(2) by simp
    qed
    then show ?thesis
      unfolding res using i(2) "1.prems"(3) left by auto
  next
    case False
    then have lt: "i < j" by simp
    have bnd: "i < length a" "j < length a"
      using lt j(1) "1.prems"(3,4) by simp_all
    have step: "hoare_loop key vp a hi ip jp = hoare_loop key vp (swap i j a) hi i j"
      using False by (subst hoare_loop.simps) (simp add: Let_def i_def j_def)
    have p1: "hoare_loop key vp (swap i j a) hi i j = (a', r)"
      using "1.prems"(1) step by simp
    have p2: "j \<le> hi" using j(1) "1.prems"(3) by simp
    have p3: "hi < length (swap i j a)" using "1.prems"(4) by simp
    have p4: "\<forall>k \<le> i. key (swap i j a ! k) \<le> vp"
    proof (intro allI impI)
      fix k assume "k \<le> i"
      then show "key (swap i j a ! k) \<le> vp"
        using bnd lt left [of k] j(3) by (auto simp: nth_swap not_less)
    qed
    have p5: "\<forall>k. j \<le> k \<and> k < length (swap i j a) \<longrightarrow> vp \<le> key (swap i j a ! k)"
    proof (intro allI impI)
      fix k assume "j \<le> k \<and> k < length (swap i j a)"
      then show "vp \<le> key (swap i j a ! k)"
        using bnd lt right [of k] i(3) by (auto simp: nth_swap not_less)
    qed
    from "1.IH" [OF i_def j_def False p1 lt p2 p3 p4 p5]
    have ih: "length a' = length (swap i j a)" "mset a' = mset (swap i j a)" "r \<le> hi"
      "a' ! hi = swap i j a ! hi" "\<forall>k < r. key (a' ! k) \<le> vp"
      "\<forall>k. r \<le> k \<and> k < length (swap i j a) \<longrightarrow> vp \<le> key (a' ! k)"
      by simp_all
    have "swap i j a ! hi = a ! hi"
      using bnd lt j(1) "1.prems"(3,4) by (simp add: nth_swap)
    then show ?thesis using ih bnd by (simp add: mset_swap')
  qed
qed


lemma qs_partition_spec:
  assumes len: "3 \<le> length a" and part: "qs_partition key a = (l, p, r)"
  shows "mset (l @ p # r) = mset a \<and> (\<forall>x \<in> set l. key x \<le> key p)
       \<and> (\<forall>x \<in> set r. key p \<le> key x)"
proof -
  define pr where "pr = length a - 1"
  define pm where "pm = pr div 2"
  define a1 where "a1 = median3 key a"
  define vp where "vp = key (a1 ! pm)"
  define a2 where "a2 = swap pm (pr - 1) a1"
  obtain a3 i where loop: "hoare_loop key vp a2 (pr - 1) 0 (pr - 1) = (a3, i)"
    by (cases "hoare_loop key vp a2 (pr - 1) 0 (pr - 1)") auto
  define a4 where "a4 = swap i (pr - 1) a3"
  have res: "l = take i a4" "p = a4 ! i" "r = drop (Suc i) a4"
    using part loop
    unfolding qs_partition_def Let_def a4_def a2_def vp_def a1_def pm_def pr_def
    by simp_all
  have b: "0 < pm" "pm \<le> pr - 1" "0 < pr - 1" "pr - 1 < pr" "pr < length a"
    using len by (auto simp: pm_def pr_def)
  have prd: "pr = length a - 1" by (simp add: pr_def)
  have la1: "length a1 = length a" by (simp add: a1_def)
  have la2: "length a2 = length a" by (simp add: a2_def la1)
  have ne: "a \<noteq> []" using len by auto
  have ma2: "mset a2 = mset a"
    using b la1 mset_median3 [OF ne, of key] by (simp add: a2_def mset_swap' a1_def [symmetric])
  from median3_ordered [OF len, of key]
  have ord: "key (a1 ! 0) \<le> vp" "vp \<le> key (a1 ! pr)"
    unfolding a1_def vp_def pm_def pr_def by simp_all
  have ix: "pm < length a1" "pr - 1 < length a1" "0 < length a1" "pr < length a1"
    using b la1 by auto
  have neq: "pr \<noteq> pr - 1" "pr \<noteq> pm" "0 \<noteq> pm" "0 \<noteq> pr - 1"
    using b by arith+
  have piv: "a2 ! (pr - 1) = a1 ! pm"
    unfolding a2_def using nth_swap [OF ix(1,2,2)] by simp
  have z: "a2 ! 0 = a1 ! 0"
    unfolding a2_def using nth_swap [OF ix(1,2,3)] neq by simp
  have e: "a2 ! pr = a1 ! pr"
    unfolding a2_def using nth_swap [OF ix(1,2,4)] neq by simp
  have i1: "\<forall>k \<le> 0. key (a2 ! k) \<le> vp" using ord(1) z by simp
  have i2: "\<forall>k. pr - 1 \<le> k \<and> k < length a2 \<longrightarrow> vp \<le> key (a2 ! k)"
  proof (intro allI impI)
    fix k assume k: "pr - 1 \<le> k \<and> k < length a2"
    then have "k = pr - 1 \<or> k = pr" using b la2 prd by arith
    then show "vp \<le> key (a2 ! k)" using piv e ord(2) by (auto simp: vp_def)
  qed
  have hl: "pr - 1 < length a2" using b la2 by simp
  from hoare_loop_spec [OF loop b(3) le_refl hl i1 i2]
  have sp: "length a3 = length a" "mset a3 = mset a" "i \<le> pr - 1" "a3 ! (pr - 1) = a1 ! pm"
    "\<forall>k < i. key (a3 ! k) \<le> vp" "\<forall>k. i \<le> k \<and> k < length a \<longrightarrow> vp \<le> key (a3 ! k)"
    using piv by (simp_all add: la2 ma2)
  have ib: "i < length a" "pr - 1 < length a3" "i < length a3"
    using sp(1,3) b by simp_all
  have la4: "length a4 = length a" by (simp add: a4_def sp(1))
  have ma4: "mset a4 = mset a" using ib by (simp add: a4_def mset_swap' sp(2))
  have pk: "key p = vp"
    using ib sp(4) by (simp add: res(2) a4_def nth_swap vp_def)
  have m: "mset (l @ p # r) = mset a"
    unfolding res using id_take_nth_drop [of i a4] ib la4 ma4 by simp
  have lo: "key x \<le> key p" if "x \<in> set l" for x
  proof -
    from that obtain k where k: "k < i" "x = a4 ! k"
      unfolding res using ib la4 by (auto simp: in_set_conv_nth)
    then have "a4 ! k = a3 ! k" using ib sp(3) by (simp add: a4_def nth_swap)
    then show ?thesis using k sp(5) pk by simp
  qed
  have hi: "key p \<le> key x" if "x \<in> set r" for x
  proof -
    from that obtain k where k: "i < k" "k < length a" "x = a4 ! k"
      unfolding res using la4 by (auto simp: in_set_conv_nth) (metis Suc_lessI add_Suc less_add_Suc1 less_diff_conv add.commute not_less_eq)
    have "vp \<le> key (a4 ! k)"
    proof (cases "k = pr - 1")
      case True
      then have "a4 ! k = a3 ! i" using ib by (simp add: a4_def nth_swap)
      then show ?thesis using sp(6) ib by simp
    next
      case False
      then have "a4 ! k = a3 ! k" using ib k sp(1) by (simp add: a4_def nth_swap)
      then show ?thesis using sp(6) k by simp
    qed
    then show ?thesis using k pk by simp
  qed
  show ?thesis using m lo hi by blast
qed


lemma qs_partition_lengths:
  assumes "16 < length a - Suc 0" "(l, p, r) = qs_partition key a"
  shows "length l < length a \<and> length r < length a"
proof -
  have "3 \<le> length a" using assms(1) by simp
  from qs_partition_spec [OF this assms(2) [symmetric]] have "mset (l @ p # r) = mset a" by simp
  then have "length (l @ p # r) = length a" by (rule mset_eq_length)
  then show ?thesis by simp
qed


lemma mset_shift_insert: "mset (shift_insert key vi ys) = add_mset vi (mset ys)"
  by (induction ys) auto

lemma set_shift_insert: "set (shift_insert key vi ys) = insert vi (set ys)"
  by (induction ys) auto

lemma sorted_shift_insert:
  "sorted (rev (map key ys)) \<Longrightarrow> sorted (rev (map key (shift_insert key vi ys)))"
  by (induction ys) (auto simp: sorted_append set_shift_insert less_imp_le)

lemma foldl_shift_insert:
  "mset (foldl (\<lambda>acc vi. shift_insert key vi acc) acc a) = mset a + mset acc"
  by (induction a arbitrary: acc) (auto simp: mset_shift_insert)

lemma sorted_foldl_shift_insert:
  "sorted (rev (map key acc)) \<Longrightarrow>
     sorted (rev (map key (foldl (\<lambda>acc vi. shift_insert key vi acc) acc a)))"
  by (induction a arbitrary: acc) (auto simp: sorted_shift_insert)

lemma mset_insertion_sort: "mset (insertion_sort key a) = mset a"
  by (simp add: insertion_sort_def foldl_shift_insert)

lemma sorted_insertion_sort: "sorted (map key (insertion_sort key a))"
  using sorted_foldl_shift_insert [of key "[]" a]
  by (simp add: insertion_sort_def rev_map)

lemma introsort_spec:
  "mset (introsort key popped cdepth a) = mset a
     \<and> sorted (map key (introsort key popped cdepth a))"
proof (induction key popped cdepth a rule: introsort.induct)
  case (1 key popped cdepth a)
  show ?case
  proof (cases "popped \<and> cdepth < 0")
    case True
    then show ?thesis
      by (subst (1 2) introsort.simps) (simp add: heap_fallback_def)
  next
    case nf: False
    show ?thesis
    proof (cases "length a - 1 > 16")
      case False
      then show ?thesis using nf
        by (subst (1 2) introsort.simps) (auto simp: mset_insertion_sort sorted_insertion_sort)
    next
      case big: True
      obtain l p r where part: "qs_partition key a = (l, p, r)"
        by (cases "qs_partition key a") auto
      have len: "3 \<le> length a" using big by simp
      from qs_partition_spec [OF len part]
      have ps: "mset (l @ p # r) = mset a" "\<forall>x \<in> set l. key x \<le> key p"
        "\<forall>x \<in> set r. key p \<le> key x"
        by simp_all
      define sl where "sl = (if length l < length r then introsort key False (cdepth - 1) l
                             else introsort key True (cdepth - 1) l)"
      define sr where "sr = (if length l < length r then introsort key True (cdepth - 1) r
                             else introsort key False (cdepth - 1) r)"
      have eq: "introsort key popped cdepth a = sl @ [p] @ sr"
        using nf big part by (subst introsort.simps) (auto simp: sl_def sr_def)
      have ihl: "mset sl = mset l \<and> sorted (map key sl)"
        using "1.IH"(1) [OF nf big part [symmetric] refl] "1.IH"(3) [OF nf big part [symmetric] refl]
        by (simp add: sl_def)
      have ihr: "mset sr = mset r \<and> sorted (map key sr)"
        using "1.IH"(2) [OF nf big part [symmetric] refl] "1.IH"(4) [OF nf big part [symmetric] refl]
        by (simp add: sr_def)
      have sets: "set sl = set l" "set sr = set r"
        using ihl ihr by (auto dest: mset_eq_setD)
      have "mset (sl @ [p] @ sr) = mset a" using ihl ihr ps(1) by simp
      moreover have "sorted (map key (sl @ [p] @ sr))"
        using ihl ihr ps(2,3) sets by (auto simp: sorted_append) (meson order_trans)
      ultimately show ?thesis unfolding eq by simp
    qed
  qed
qed

lemma mset_argsort: "mset (argsort ks) = mset [0..<length ks]"
  by (simp add: argsort_def introsort_spec)

lemma length_argsort: "length (argsort ks) = length ks"
  using mset_eq_length [OF mset_argsort] by simp

lemma set_argsort: "set (argsort ks) = {..<length ks}"
  using mset_eq_setD [OF mset_argsort] by auto

lemma distinct_argsort: "distinct (argsort ks)"
  using mset_eq_imp_distinct_iff [OF mset_argsort] by simp

lemma sorted_argsort: "sorted (map (\<lambda>i. ks ! i) (argsort ks))"
  by (simp add: argsort_def introsort_spec)

lemma argsort_short:
  assumes "length ks \<le> 17"
  shows "argsort ks = insertion_sort (\<lambda>i. ks ! i) [0..<length ks]"
proof -
  have "\<not> 16 < length [0..<length ks] - 1" using assms by simp
  moreover have "\<not> 2 * int (npy_get_msb (length ks)) < 0" by simp
  ultimately show ?thesis
    unfolding argsort_def by (subst introsort.simps) (simp only: if_False simp_thms)
qed

lemma np_round_nonneg: "0 \<le> x \<Longrightarrow> 0 \<le> np_round x"
  by (auto simp: np_round_def Let_def)

lemma length_floor_one: "length (floor_one en) = length en"
  by (simp add: floor_one_def)

lemma length_edgenum_rounded: "length (edgenum_rounded ls n) = length ls"
  by (simp add: edgenum_rounded_def)

lemma floor_one_ge1: "\<forall>c \<in> set en. 0 \<le> c \<Longrightarrow> \<forall>c \<in> set (floor_one en). 1 \<le> c"
  by (auto simp: floor_one_def)

lemma edgenum_rounded_nonneg:
  assumes "\<forall>l \<in> set ls. 0 \<le> l" "0 \<le> n" "0 \<le> sum_list ls"
  shows "\<forall>c \<in> set (edgenum_rounded ls n). 0 \<le> c"
proof
  fix c assume "c \<in> set (edgenum_rounded ls n)"
  then obtain l where l: "l \<in> set ls" "c = np_round (l * of_int n / sum_list ls)"
    by (auto simp: edgenum_rounded_def)
  have "0 \<le> l * of_int n / sum_list ls"
    using assms l(1) by (intro divide_nonneg_nonneg mult_nonneg_nonneg) auto
  then show "0 \<le> c" by (simp add: l(2) np_round_nonneg)
qed

lemma slack_total:
  assumes "distinct srt" "set srt = {..<length en}"
  shows "(\<Sum>e \<leftarrow> srt. en ! e - 1) = sum_list en - int (length en)"
proof -
  have "(\<Sum>e \<leftarrow> srt. en ! e - 1) = (\<Sum>e \<in> set srt. en ! e - 1)"
    using assms(1) by (simp add: sum_list_distinct_conv_sum_set)
  also have "\<dots> = (\<Sum>e<length en. en ! e - 1)" by (simp add: assms(2))
  also have "\<dots> = (\<Sum>e<length en. en ! e) - int (length en)"
    by (simp add: sum_subtractf)
  also have "(\<Sum>e<length en. en ! e) = sum_list en"
    by (simp add: sum_list_sum_nth atLeast0LessThan)
  finally show ?thesis .
qed

lemma edgenum_final_ok:
  assumes srt: "distinct srt" "set srt = {..<length ls}"
    and ls: "\<forall>l \<in> set ls. 0 \<le> l" "0 < sum_list ls"
    and n: "int (length ls) \<le> n"
  shows "\<exists>en. edgenum_final ls srt n = Inr en \<and> length en = length ls
            \<and> sum_list en = n \<and> (\<forall>c \<in> set en. 1 \<le> c)"
proof -
  define en1 where "en1 = floor_one (edgenum_rounded ls n)"
  have len1: "length en1 = length ls"
    by (simp add: en1_def length_floor_one length_edgenum_rounded)
  have n0: "0 \<le> n" using n by linarith
  have ge1: "\<forall>c \<in> set en1. 1 \<le> c"
    unfolding en1_def using edgenum_rounded_nonneg [OF ls(1) n0] ls(2)
    by (intro floor_one_ge1) simp
  have lsrt: "length srt = length ls"
    using srt distinct_card [OF srt(1)] by simp
  have nonempty: "ls \<noteq> []" using ls(2) by auto
  consider (eq) "sum_list en1 = n" | (gt) "sum_list en1 > n" | (lt) "sum_list en1 < n"
    by linarith
  then show ?thesis
  proof cases
    case eq
    then show ?thesis
      using ls(2) ge1 len1 by (simp add: edgenum_final_def Let_def en1_def [symmetric])
  next
    case gt
    have step: "edgenum_final ls srt n = excess_loop srt en1 (- 1) (sum_list en1 - n)"
      using gt ls(2) by (simp add: edgenum_final_def Let_def en1_def [symmetric])
    have sub: "set srt \<subseteq> {..<length en1}" by (simp add: srt(2) len1)
    have slack: "sum_list en1 - n \<le> (\<Sum>e \<leftarrow> take (nat (int (length srt) + (- 1) + 1)) srt. en1 ! e - 1)"
      using slack_total [OF srt(1), of en1] srt(2) len1 n by simp
    from excess_loop_ok [OF srt(1) sub ge1 _ _ _ slack] gt
    obtain en' where "excess_loop srt en1 (- 1) (sum_list en1 - n) = Inr en'"
      "length en' = length en1" "sum_list en' = sum_list en1 - (sum_list en1 - n)"
      "\<forall>c \<in> set en'. 1 \<le> c"
      by auto
    then show ?thesis using step len1 by simp
  next
    case lt
    define e where "e = srt ! (length srt - 1)"
    have "nat (int (length srt) + - 1) = length srt - 1"
      by (cases srt) auto
    moreover have "1 \<le> int (length srt)"
      using nonempty lsrt by (cases srt) auto
    ultimately have pyi: "py_index srt (- 1) = Inr e"
      by (simp add: py_index_def e_def)
    have e_lt: "e < length en1"
      using srt(2) nonempty lsrt len1 nth_mem [of "length srt - 1" srt] by (auto simp: e_def)
    let ?en = "en1[e := en1 ! e + (n - sum_list en1)]"
    have step: "edgenum_final ls srt n = Inr ?en"
      using lt ls(2) pyi by (simp add: edgenum_final_def Let_def en1_def [symmetric])
    have "sum_list ?en = n" using e_lt by (simp add: sum_list_update_int)
    moreover have "1 \<le> en1 ! e + (n - sum_list en1)"
      using ge1 lt nth_mem [OF e_lt] by fastforce
    then have "\<forall>c \<in> set ?en. 1 \<le> c"
      using ge1 set_update_subset_insert [of en1 e "en1 ! e + (n - sum_list en1)"] by auto
    ultimately show ?thesis using step len1 by simp
  qed
qed

lemma edgelen_nonneg: "\<forall>l \<in> set (edgelen p). 0 \<le> l"
  by (auto simp: edgelen_def sqdist_def set_zip)

lemma length_pmids: "length (pmids a b m) = nat m"
  by (simp add: pmids_def)

lemma sum_list_nat: "\<forall>c \<in> set en. (0::int) \<le> c \<Longrightarrow> sum_list (map nat en) = nat (sum_list en)"
  by (induction en) (auto simp: nat_add_distrib sum_list_nonneg)

lemma length_concat_pmids:
  assumes "length en = n" "\<forall>c \<in> set en. 0 \<le> c"
  shows "length (concat (map (\<lambda>i. pmids (p ! i) (q ! i) (en ! i)) [0..<n])) = nat (sum_list en)"
proof -
  have "map (\<lambda>i. nat (en ! i)) [0..<n] = map nat en"
    using assms(1) by (intro nth_equalityI) auto
  then show ?thesis
    using sum_list_nat [OF assms(2)] by (simp add: length_concat comp_def length_pmids)
qed

lemma edgenum_final_argsort:
  assumes "0 < sum_list (edgelen p)" "int (length p) \<le> n"
  shows "\<exists>en. edgenum_final (edgelen p) (argsort (edgelen p)) n = Inr en \<and> length en = length p
            \<and> sum_list en = n \<and> (\<forall>c \<in> set en. 1 \<le> c)"
proof -
  have "set (argsort (edgelen p)) = {..<length (edgelen p)}" by (rule set_argsort)
  from edgenum_final_ok [OF distinct_argsort this edgelen_nonneg assms(1)] assms(2)
  show ?thesis by (simp add: length_edgelen)
qed

lemma uniformsample_length:
  assumes "uniformsample p n = Inr s"
  shows "length s = nat n \<and> 0 \<le> n"
proof (cases "int (length p) > n")
  case True
  with assms show ?thesis
    by (auto simp: uniformsample_def Let_def split: if_splits)
next
  case False
  from assms False obtain en where en: "edgenum_final (edgelen p) (argsort (edgelen p)) n = Inr en"
    and sum: "sum_list en = n" and ne: "p \<noteq> []"
    and s: "s = concat (map (\<lambda>i. pmids (p ! i) (pgtnext p ! i) (en ! i)) [0..<length p])"
    by (auto simp: uniformsample_def Let_def split: if_splits sum.splits)
  have pos: "0 < sum_list (edgelen p)"
  proof -
    have "edgelen p \<noteq> []" using ne length_edgelen [of p] by auto
    then have "sum_list (edgelen p) \<noteq> 0"
      using en by (auto simp: edgenum_final_def split: if_splits)
    moreover have "0 \<le> sum_list (edgelen p)"
      using edgelen_nonneg by (simp add: sum_list_nonneg)
    ultimately show ?thesis by simp
  qed
  from edgenum_final_argsort [OF pos, of n] False en
  have "length en = length p" "\<forall>c \<in> set en. 1 \<le> c"
    by auto
  then have "length s = nat (sum_list en)"
    unfolding s by (intro length_concat_pmids) auto
  with sum False show ?thesis by simp
qed

lemma uniformsample_returns:
  assumes "0 < sum_list (edgelen p)" "0 \<le> n"
  shows "\<exists>s. uniformsample p n = Inr s"
proof (cases "int (length p) > n")
  case True
  then show ?thesis using assms(2)
    by (simp add: uniformsample_def Let_def length_argsort length_edgelen)
next
  case False
  have ne: "p \<noteq> []" using assms(1) by (auto simp: edgelen_def)
  from edgenum_final_argsort [OF assms(1), of n] False
  obtain en where "edgenum_final (edgelen p) (argsort (edgelen p)) n = Inr en" "sum_list en = n"
    by auto
  then show ?thesis using False ne by (simp add: uniformsample_def Let_def)
qed

lemma nths_upt_filter: "nths [0..<n] A = filter (\<lambda>i. i \<in> A) [0..<n]"
  by (induction n) (auto simp: nths_append)

lemma map_nth_nths:
  assumes "sorted_wrt (<) ks" "set ks \<subseteq> {..<length xs}"
  shows "map (\<lambda>i. xs ! i) ks = nths xs (set ks)"
proof -
  have "nths xs (set ks) = map (\<lambda>i. xs ! i) (nths [0..<length xs] (set ks))"
    by (metis map_nth nths_map)
  moreover have "filter (\<lambda>i. i \<in> set ks) [0..<length xs] = ks"
  proof (rule sorted_distinct_set_unique)
    show "set (filter (\<lambda>i. i \<in> set ks) [0..<length xs]) = set ks"
      using assms(2) by auto
  qed (use assms(1) in \<open>auto simp: strict_sorted_iff sorted_filter [where f = "\<lambda>x. x", simplified]\<close>)
  ultimately show ?thesis by (simp add: nths_upt_filter)
qed

lemma argsort_rank:
  assumes "a \<in> set (take d (argsort ks))" "b \<in> set (drop d (argsort ks))"
  shows "ks ! a \<le> ks ! b"
proof -
  have "sorted (map (\<lambda>i. ks ! i) (take d (argsort ks) @ drop d (argsort ks)))"
    using sorted_argsort [of ks] by simp
  then show ?thesis
    using assms unfolding map_append sorted_append by auto
qed

text \<open>Distinct vertices give a positive perimeter.\<close>

lemma sqdist_pos: "a \<noteq> b \<Longrightarrow> 0 < sqdist a b"
  by (cases a; cases b) (auto simp: sqdist_def sum_power2_gt_zero_iff)

lemma edgelen_nth:
  "i < length p \<Longrightarrow> edgelen p ! i = sqrt (sqdist (p ! i) (p ! ((i + 1) mod length p)))"
  by (simp add: edgelen_def pgtnext_def)

lemma sum_list_ge_nth:
  "\<forall>x \<in> set xs. (0::real) \<le> x \<Longrightarrow> i < length xs \<Longrightarrow> xs ! i \<le> sum_list xs"
  by (metis member_le_sum_list nth_mem)

lemma perimeter_pos_distinct:
  assumes "2 \<le> length p" "distinct p"
  shows "0 < sum_list (edgelen p)"
proof -
  have "0 < length p" "1 < length p" using assms(1) by auto
  from nth_eq_iff_index_eq [OF assms(2) this] have "p ! 0 \<noteq> p ! 1" by simp
  then have "0 < sqdist (p ! 0) (p ! 1)" by (rule sqdist_pos)
  moreover have "(0 + 1) mod length p = 1" using \<open>1 < length p\<close> by simp
  ultimately have "0 < edgelen p ! 0"
    unfolding edgelen_nth [OF \<open>0 < length p\<close>] by simp
  also have "edgelen p ! 0 \<le> sum_list (edgelen p)"
    using \<open>0 < length p\<close> by (intro sum_list_ge_nth edgelen_nonneg) (simp add: length_edgelen)
  finally show ?thesis .
qed

lemma edgelen_square10: "edgelen square10 = [10, 10, 10, 10]"
  by (simp add: square10_def edgelen_def pgtnext_def sqdist_def upt_rec)

lemma edgelen_pentagon: "edgelen pentagon = [3, 7, 10, 10, 10]"
  by (simp add: pentagon_def edgelen_def pgtnext_def sqdist_def upt_rec)

lemma edgelen_ring20: "edgelen ring20 = replicate 20 1"
  by (simp add: ring20_def edgelen_def pgtnext_def sqdist_def upt_rec)
     (simp add: numeral_eq_Suc)

lemma argsort_twenty_ones:
  "argsort (replicate 20 1) = [0, 17, 16, 15, 14, 13, 12, 11, 10, 9, 8, 7, 6, 5, 4, 3, 2, 1, 18, 19]"
  by code_simp

lemma stable_argsort_twenty_ones:
  "stable_argsort (replicate 20 1)
     = [0, 1, 2, 3, 4, 5, 6, 7, 8, 9, 10, 11, 12, 13, 14, 15, 16, 17, 18, 19]"
  by code_simp

lemma length_ring20: "length ring20 = 20"
  by (simp add: ring20_def)

lemma edgeidxsort_k_ring20: "edgeidxsort_k ring20 8 = [1, 2, 3, 4, 5, 6, 18, 19]"
  by (simp add: edgeidxsort_k_def edgelen_ring20 argsort_twenty_ones length_ring20)

text \<open>
  Claim C6 (as amended).  In the contraction branch (more vertices than wanted) the
  result consists of the input vertices at the kept indices \<open>edgeidxsort_k\<close>: there are
  exactly \<open>newpnum\<close> of them, they are strictly increasing (so the result is the
  subsequence \<open>nths\<close> of the input at these indices and no point is new), and no kept
  vertex has a shorter outgoing edge than a dropped one.  Which vertices are kept among
  those whose edges have the same length is left to the sort of numpy, which is not
  stable.
\<close>

theorem contraction_keeps_longest_edges:
  assumes "n < int (length p)" "0 \<le> n"
  shows "uniformsample p n = Inr (map (\<lambda>i. p ! i) (edgeidxsort_k p n))
       \<and> length (edgeidxsort_k p n) = nat n
       \<and> sorted_wrt (<) (edgeidxsort_k p n)
       \<and> set (edgeidxsort_k p n) \<subseteq> {..<length p}
       \<and> (\<forall>i \<in> set (edgeidxsort_k p n). \<forall>j < length p. j \<notin> set (edgeidxsort_k p n) \<longrightarrow>
             edgelen p ! j \<le> edgelen p ! i)
       \<and> map (\<lambda>i. p ! i) (edgeidxsort_k p n) = nths p (set (edgeidxsort_k p n))"
proof -
  define d where "d = nat (int (length p) - n)"
  define srt where "srt = argsort (edgelen p)"
  have k: "edgeidxsort_k p n = sort (drop d srt)"
    by (simp add: edgeidxsort_k_def d_def srt_def)
  have len: "length (edgeidxsort_k p n) = nat n"
    using assms by (simp add: k d_def srt_def length_argsort length_edgelen)
  have set_k: "set (edgeidxsort_k p n) = set (drop d srt)" by (simp add: k)
  have sub: "set (edgeidxsort_k p n) \<subseteq> {..<length p}"
    using set_drop_subset [of d srt] set_argsort [of "edgelen p"]
    by (simp add: set_k srt_def length_edgelen)
  have strict: "sorted_wrt (<) (edgeidxsort_k p n)"
    using distinct_argsort [of "edgelen p"] by (simp add: k srt_def strict_sorted_iff)
  have res: "uniformsample p n = Inr (map (\<lambda>i. p ! i) (edgeidxsort_k p n))"
    using assms len by (simp add: uniformsample_def Let_def edgeidxsort_k_def)
  have rank: "edgelen p ! j \<le> edgelen p ! i"
    if "i \<in> set (edgeidxsort_k p n)" "j < length p" "j \<notin> set (edgeidxsort_k p n)" for i j
  proof -
    have "j \<in> set (take d srt @ drop d srt)"
      using that(2) set_argsort [of "edgelen p"] by (simp add: srt_def length_edgelen)
    then have "j \<in> set (take d srt)" using that(3) unfolding set_k set_append by blast
    then show ?thesis using argsort_rank [of j d "edgelen p" i] that(1)
      by (simp add: set_k srt_def)
  qed
  show ?thesis using res len strict sub rank map_nth_nths [OF strict sub] by blast
qed

theorem contraction_keeps_longest_edges_witness:
  "(8::int) < int (length ring20) \<and> (0::int) \<le> 8
   \<and> edgeidxsort_k ring20 8 = [1, 2, 3, 4, 5, 6, 18, 19]
   \<and> uniformsample ring20 8
       = Inr [(1, 0), (2, 0), (3, 0), (4, 0), (5, 0), (6, 0), (1, 1), (0, 1)]"
proof -
  have h: "(8::int) < int (length ring20)" by (simp add: length_ring20)
  from contraction_keeps_longest_edges [OF h]
  have "uniformsample ring20 8 = Inr (map (\<lambda>i. ring20 ! i) (edgeidxsort_k ring20 8))"
    by simp
  then have "uniformsample ring20 8
      = Inr [(1, 0), (2, 0), (3, 0), (4, 0), (5, 0), (6, 0), (1, 1), (0, 1)]"
    unfolding edgeidxsort_k_ring20 by (simp add: ring20_def)
  with h edgeidxsort_k_ring20 show ?thesis by simp
qed

text \<open>
  Claim C6 as stated fails on the ring of 20 unit edges resampled to 8 points.  A stable
  sort leaves the 20 equal lengths in index order, so the specification keeps the
  vertices 12 to 19.  The partition step of numpy's sort exchanges equal keys, and the
  code keeps the vertices 1 to 6, 18 and 19.
\<close>

theorem contraction_tie_break_not_stable:
  "spec_edgeidxsort_k ring20 8 = [12, 13, 14, 15, 16, 17, 18, 19]
   \<and> edgeidxsort_k ring20 8 = [1, 2, 3, 4, 5, 6, 18, 19]
   \<and> edgelen ring20 ! 7 = edgelen ring20 ! 1
   \<and> uniformsample ring20 8 \<noteq> Inr (map (\<lambda>i. ring20 ! i) (spec_edgeidxsort_k ring20 8))"
proof -
  have a: "spec_edgeidxsort_k ring20 8 = [12, 13, 14, 15, 16, 17, 18, 19]"
    by (simp add: spec_edgeidxsort_k_def edgelen_ring20 stable_argsort_twenty_ones length_ring20)
  have b: "edgeidxsort_k ring20 8 = [1, 2, 3, 4, 5, 6, 18, 19]"
    by (simp add: edgeidxsort_k_def edgelen_ring20 argsort_twenty_ones length_ring20)
  have c: "edgelen ring20 ! 7 = edgelen ring20 ! 1"
    by (simp add: edgelen_ring20)
  have "length (drop 12 (argsort (edgelen ring20))) = 8"
    by (simp add: length_argsort length_edgelen length_ring20)
  then have "uniformsample ring20 8 = Inr (map (\<lambda>i. ring20 ! i) (edgeidxsort_k ring20 8))"
    by (simp add: uniformsample_def Let_def edgeidxsort_k_def length_ring20)
  then have d: "uniformsample ring20 8 \<noteq> Inr (map (\<lambda>i. ring20 ! i) (spec_edgeidxsort_k ring20 8))"
    unfolding a b by (simp add: ring20_def)
  from a b c d show ?thesis by blast
qed

text \<open>
  Claim C2.  A polygon of at least three vertices and positive perimeter (which distinct
  vertices give, \<open>perimeter_pos_distinct\<close>) is resampled to exactly \<open>newpnum\<close> points,
  for every positive \<open>newpnum\<close>: the call returns, in the contraction branch as in the
  subdivision branch, and its result has that length.
\<close>

theorem uniformsample_cardinality:
  assumes "3 \<le> length p" and "0 < sum_list (edgelen p)" and "0 < n"
  shows "\<exists>s. uniformsample p n = Inr s \<and> length s = nat n"
proof -
  from uniformsample_returns [OF assms(2), of n] assms(3)
  obtain s where s: "uniformsample p n = Inr s" by auto
  from uniformsample_length [OF s] have "length s = nat n" by simp
  with s show ?thesis by blast
qed

theorem uniformsample_cardinality_witness:
  "3 \<le> length square10 \<and> 0 < sum_list (edgelen square10)
   \<and> (\<exists>s. uniformsample square10 8 = Inr s \<and> length s = 8)
   \<and> (\<exists>s. uniformsample square10 3 = Inr s \<and> length s = 3)"
proof -
  have h1: "3 \<le> length square10" by (simp add: square10_def)
  have h2: "0 < sum_list (edgelen square10)" by (simp add: edgelen_square10)
  from uniformsample_cardinality [OF h1 h2, of 8] uniformsample_cardinality [OF h1 h2, of 3]
  show ?thesis using h1 h2 by simp
qed

text \<open>
  Claim C3.  In the subdivision branch (no more vertices than wanted, positive
  perimeter) the corrected per-edge counts exist, one per edge, sum to exactly
  \<open>newpnum\<close>, and each is at least 1; the assertion on the sum does not fail.
\<close>

theorem subdivision_sum_invariant:
  assumes "int (length p) \<le> n" and "0 < sum_list (edgelen p)"
  shows "\<exists>edgenum. edgenum_final (edgelen p) (argsort (edgelen p)) n = Inr edgenum
           \<and> length edgenum = length p \<and> sum_list edgenum = n
           \<and> (\<forall>c \<in> set edgenum. 1 \<le> c)
           \<and> uniformsample p n \<noteq> Inl AssertionError"
proof -
  have "0 \<le> n" using assms(1) by linarith
  from uniformsample_returns [OF assms(2) this]
  have "uniformsample p n \<noteq> Inl AssertionError" by auto
  with edgenum_final_argsort [OF assms(2) assms(1)] show ?thesis by blast
qed

theorem subdivision_sum_invariant_witness:
  "int (length square10) \<le> 6 \<and> 0 < sum_list (edgelen square10)
   \<and> edgenum_final (edgelen square10) (argsort (edgelen square10)) 6 = Inr [2, 2, 1, 1]"
proof -
  have srt: "argsort [10, 10, 10, 10] = [0, 1, 2, 3]"
    by (simp add: argsort_short insertion_sort_def upt_rec)
  have h1: "int (length square10) \<le> 6" by (simp add: square10_def)
  have h2: "0 < sum_list (edgelen square10)" by (simp add: edgelen_square10)
  have ev: "edgenum_final [10, 10, 10, 10] [0, 1, 2, 3] 6 = Inr [2, 2, 1, 1]"
    by (simp add: edgenum_final_def edgenum_rounded_def floor_one_def np_round_def Let_def
        excess_loop.simps py_index_def)
  have e: "edgenum_final (edgelen square10) (argsort (edgelen square10)) 6 = Inr [2, 2, 1, 1]"
    unfolding edgelen_square10 srt by (rule ev)
  from subdivision_sum_invariant [OF h1 h2] h1 h2 e show ?thesis by blast
qed

text \<open>The scenario of the specification: the square resampled to 8 points gets two
  points per edge.\<close>

lemma uniformsample_square10_8:
  "uniformsample square10 8 =
     Inr [(0, 0), (0, 5), (0, 10), (5, 10), (10, 10), (10, 5), (10, 0), (5, 0)]"
  by (simp add: square10_def uniformsample_def edgelen_def pgtnext_def sqdist_def upt_rec Let_def
      argsort_short insertion_sort_def edgenum_final_def edgenum_rounded_def floor_one_def
      np_round_def pmids_def)

section \<open>Properties of the normalizer and of \<open>unify_polygons\<close>\<close>

lemma bind_r_Inr_iff: "bind_r m f = Inr y \<longleftrightarrow> (\<exists>x. m = Inr x \<and> f x = Inr y)"
  by (cases m) (auto simp: bind_r_def)

lemma bind_r_Inr [simp]: "bind_r (Inr x) f = f x"
  by (simp add: bind_r_def)

lemma bind_r_Inl [simp]: "bind_r (Inl e) f = Inl e"
  by (simp add: bind_r_def)

lemma map_result_Inr:
  "map_result f xs = Inr ys \<Longrightarrow> list_all2 (\<lambda>x y. f x = Inr y) xs ys"
  by (induction xs arbitrary: ys) (auto simp: bind_r_Inr_iff)

lemma map_result_returns:
  "\<forall>x \<in> set xs. \<exists>y. f x = Inr y \<Longrightarrow> \<exists>ys. map_result f xs = Inr ys"
  by (induction xs) auto

lemma signed_area2_sum:
  "signed_area2 p = (\<Sum>i<length p. fst (p ! i) * snd (p ! ((i + 1) mod length p))
        - fst (p ! ((i + 1) mod length p)) * snd (p ! i))"
  by (simp add: signed_area2_def interv_sum_list_conv_sum_set_nat atLeast0LessThan)

lemma signed_area2_rev: "signed_area2 (rev p) = - signed_area2 p"
proof -
  define n where "n = length p"
  define phi where "phi = (\<lambda>i. n - 1 - ((i + 1) mod n))"
  define g where "g = (\<lambda>a b. fst (p ! a) * snd (p ! b) - fst (p ! b) * snd (p ! a))"
  have phi_lt: "phi i < n" if "i < n" for i using that by (simp add: phi_def)
  have phi_suc: "(phi i + 1) mod n = n - 1 - i" if "i < n" for i
  proof (cases "i = n - 1")
    case True
    then show ?thesis using that by (simp add: phi_def)
  next
    case False
    then have "i + 1 < n" using that by simp
    then show ?thesis by (simp add: phi_def)
  qed
  have phi_inv: "phi (phi i) = i" if "i < n" for i
  proof -
    have "phi (phi i) = n - 1 - ((phi i + 1) mod n)" by (simp add: phi_def)
    then show ?thesis using phi_suc [OF that] that by simp
  qed
  have rn: "rev p ! i = p ! (n - 1 - i)" if "i < n" for i
    using that by (simp add: rev_nth n_def)
  have md: "(i + 1) mod n < n" if "i < n" for i
    using that by simp
  have "signed_area2 (rev p) = (\<Sum>i<n. g (n - 1 - i) (n - 1 - ((i + 1) mod n)))"
    unfolding signed_area2_sum length_rev n_def [symmetric]
  proof (rule sum.cong)
    fix i assume "i \<in> {..<n}"
    then have i: "i < n" by simp
    show "fst (rev p ! i) * snd (rev p ! ((i + 1) mod n))
            - fst (rev p ! ((i + 1) mod n)) * snd (rev p ! i)
          = g (n - 1 - i) (n - 1 - ((i + 1) mod n))"
      unfolding rn [OF i] rn [OF md [OF i]] g_def ..
  qed simp
  also have "\<dots> = (\<Sum>i<n. g ((phi i + 1) mod n) (phi i))"
  proof (rule sum.cong)
    fix i assume "i \<in> {..<n}"
    then have i: "i < n" by simp
    show "g (n - 1 - i) (n - 1 - ((i + 1) mod n)) = g ((phi i + 1) mod n) (phi i)"
      unfolding phi_suc [OF i] by (simp add: phi_def)
  qed simp
  also have "\<dots> = (\<Sum>j<n. g ((j + 1) mod n) j)"
    by (rule sum.reindex_bij_witness [where i = phi and j = phi])
       (auto simp: phi_lt phi_inv)
  also have "\<dots> = - (\<Sum>j<n. g j ((j + 1) mod n))"
    by (simp add: g_def sum_negf [symmetric])
  also have "(\<Sum>j<n. g j ((j + 1) mod n)) = signed_area2 p"
    unfolding signed_area2_sum by (simp add: g_def n_def)
  finally show ?thesis .
qed

lemma is_ccw_rev: "signed_area2 poly \<noteq> 0 \<Longrightarrow> is_ccw poly \<Longrightarrow> \<not> is_ccw (rev poly)"
  by (simp add: is_ccw_def signed_area2_rev)






lemma length_every_nth: "length (every_nth k xs) = (length xs + k - 1) div k"
  by (simp add: every_nth_def)

lemma length_roll_left: "length (roll_left k xs) = length xs"
  by (simp add: roll_left_def)

lemma py_stride_length:
  "py_stride step xs = Inr ys \<Longrightarrow>
     length ys = (length xs + nat \<bar>step\<bar> - 1) div nat \<bar>step\<bar>"
  by (auto simp: py_stride_def length_every_nth split: if_splits)

lemma get_cw_poly_length: "get_cw_poly p = Inr q \<Longrightarrow> length q = length p"
  by (auto simp: get_cw_poly_def split: if_splits)

lemma unify_origin_polygon_length: "unify_origin_polygon p = Inr q \<Longrightarrow> length q = length p"
  by (auto simp: unify_origin_polygon_def Let_def bind_r_Inr_iff split: if_splits)

lemma unify_one_lengths:
  assumes "unify_one cfg polygon = Inr (p, w)"
  shows "length p = (nat (spline_poly_num cfg) + nat \<bar>spline_num cfg\<bar> - 1) div nat \<bar>spline_num cfg\<bar>"
    and "length w = nat (num_points cfg)"
proof -
  from assms obtain sampled first tt valid cw where
    s: "uniformsample polygon (spline_poly_num cfg) = Inr sampled"
    and st: "py_stride (spline_num cfg) (roll_left tt sampled) = Inr valid"
    and cw: "get_cw_poly valid = Inr cw"
    and uo: "unify_origin_polygon cw = Inr p"
    and w: "w = replicate (nat (num_points cfg)) 1"
    by (auto simp: unify_one_def bind_r_Inr_iff split: if_splits)
  from uniformsample_length [OF s] have "length sampled = nat (spline_poly_num cfg)" by simp
  with py_stride_length [OF st] get_cw_poly_length [OF cw] unify_origin_polygon_length [OF uo]
  show "length p = (nat (spline_poly_num cfg) + nat \<bar>spline_num cfg\<bar> - 1) div nat \<bar>spline_num cfg\<bar>"
    by (simp add: length_roll_left)
  show "length w = nat (num_points cfg)" by (simp add: w)
qed

lemma unify_polygons_Inr:
  assumes "unify_polygons cfg raw gt_bbox = Inr (ps, ws)"
  shows "\<exists>polygons valid. map_result reshape2 raw = Inr polygons
           \<and> map_result (unify_one cfg) polygons = Inr valid
           \<and> ps = map fst valid \<and> ws = map snd valid"
  using assms by (auto simp: unify_polygons_def bind_r_Inr_iff)

lemma unify_polygons_count:
  assumes "unify_polygons cfg raw gt_bbox = Inr (ps, ws)"
  shows "length ps = length raw" and "length ws = length raw"
proof -
  from unify_polygons_Inr [OF assms] obtain polygons valid where
    a: "map_result reshape2 raw = Inr polygons"
    and b: "map_result (unify_one cfg) polygons = Inr valid"
    and c: "ps = map fst valid" "ws = map snd valid"
    by blast
  from map_result_Inr [OF a] map_result_Inr [OF b]
  have "length valid = length raw" by (simp add: list_all2_lengthD)
  then show "length ps = length raw" and "length ws = length raw" by (simp_all add: c)
qed

lemma unify_polygons_lengths:
  assumes "unify_polygons cfg raw gt_bbox = Inr (ps, ws)"
  shows "\<forall>p \<in> set ps. length p =
           (nat (spline_poly_num cfg) + nat \<bar>spline_num cfg\<bar> - 1) div nat \<bar>spline_num cfg\<bar>"
    and "\<forall>w \<in> set ws. length w = nat (num_points cfg)"
proof -
  from unify_polygons_Inr [OF assms] obtain polygons valid where
    b: "map_result (unify_one cfg) polygons = Inr valid"
    and c: "ps = map fst valid" "ws = map snd valid"
    by blast
  have each: "\<exists>polygon. unify_one cfg polygon = Inr v" if "v \<in> set valid" for v
    using map_result_Inr [OF b] that by (auto simp: list_all2_conv_all_nth in_set_conv_nth)
  show "\<forall>p \<in> set ps. length p =
           (nat (spline_poly_num cfg) + nat \<bar>spline_num cfg\<bar> - 1) div nat \<bar>spline_num cfg\<bar>"
    unfolding c using each unify_one_lengths(1) by (metis (no_types, lifting) imageE list.set_map prod.collapse)
  show "\<forall>w \<in> set ws. length w = nat (num_points cfg)"
    unfolding c using each unify_one_lengths(2) by (metis (no_types, lifting) imageE list.set_map prod.collapse)
qed


lemma argmin_returns: "ks \<noteq> [] \<Longrightarrow> \<exists>i. argmin ks = Inr i"
  by (cases ks) (auto simp: argmin_def)

lemma unify_origin_polygon_returns: "p \<noteq> [] \<Longrightarrow> \<exists>q. unify_origin_polygon p = Inr q"
proof -
  assume ne: "p \<noteq> []"
  let ?xmin = "np_min (map fst p)" and ?xmax = "np_max (map fst p)" and ?ymin = "np_min (map snd p)"
  let ?dist = "map (\<lambda>q. (fst q - (?xmin + ?xmax) / 2)\<^sup>2 + (snd q - ?ymin)\<^sup>2) p"
  from ne have "?dist \<noteq> []" by simp
  from argmin_returns [OF this] obtain i where "argmin ?dist = Inr i" by blast
  then show ?thesis using ne by (simp add: unify_origin_polygon_def Let_def)
qed

lemma unify_one_returns:
  assumes per: "0 < sum_list (edgelen polygon)"
    and np: "0 < num_points cfg" and sn: "0 < spline_num cfg"
    and three: "3 \<le> (nat (spline_poly_num cfg) + nat (spline_num cfg) - 1) div nat (spline_num cfg)"
  shows "\<exists>p w. unify_one cfg polygon = Inr (p, w)"
proof -
  have n0: "0 \<le> spline_poly_num cfg" using np by (simp add: spline_poly_num_def)
  from uniformsample_returns [OF per n0] obtain sampled where
    s: "uniformsample polygon (spline_poly_num cfg) = Inr sampled" by blast
  from uniformsample_length [OF s] np have len: "length sampled = nat (spline_poly_num cfg)"
    and ne: "sampled \<noteq> []"
    by (auto simp: spline_poly_num_def)
  have first: "py_index sampled 0 = Inr (sampled ! 0)"
    using ne by (simp add: py_index_def)
  from argmin_returns [of "map (\<lambda>p. sqdist (sampled ! 0) p) sampled"] ne
  obtain tt where tt: "argmin (map (\<lambda>p. sqdist (sampled ! 0) p) sampled) = Inr tt" by auto
  let ?valid = "every_nth (nat (spline_num cfg)) (roll_left tt sampled)"
  have st: "py_stride (spline_num cfg) (roll_left tt sampled) = Inr ?valid"
    using sn by (simp add: py_stride_def)
  have lv: "3 \<le> length ?valid"
    using three by (simp add: length_every_nth length_roll_left len)
  then obtain cw where cw: "get_cw_poly ?valid = Inr cw" and lcw: "length cw = length ?valid"
    by (auto simp: get_cw_poly_def)
  from lv lcw have "cw \<noteq> []" by auto
  from unify_origin_polygon_returns [OF this] obtain q where q: "unify_origin_polygon cw = Inr q"
    by blast
  show ?thesis
    using s first tt st cw q np by (simp add: unify_one_def)
qed

lemma rows2_nonempty: "0 < sum_list (edgelen (rows2 flat)) \<Longrightarrow> rows2 flat \<noteq> []"
  by (auto simp: edgelen_def)

lemma extent_pass_returns:
  "\<forall>p \<in> set polys. p \<noteq> [] \<Longrightarrow> \<exists>kept. extent_pass polys = Inr kept"
  by (induction polys) (auto simp: Let_def)

lemma filtered_polygons_returns:
  assumes "\<forall>p \<in> set polys. p \<noteq> []"
  shows "\<exists>f. filtered_polygons polys gt_bbox = Inr f"
proof -
  from extent_pass_returns [OF assms] obtain kept where "extent_pass polys = Inr kept" by blast
  then show ?thesis
    by (cases gt_bbox) (simp add: filtered_polygons_def filter_tiny_polys_def Let_def)
qed

lemma map_result_reshape2:
  "\<forall>flat \<in> set raw. even (length flat) \<Longrightarrow> map_result reshape2 raw = Inr (map rows2 raw)"
  by (induction raw) (auto simp: reshape2_def)

lemma unify_polygons_returns:
  assumes raw: "\<forall>flat \<in> set raw. even (length flat) \<and> 0 < sum_list (edgelen (rows2 flat))"
    and np: "0 < num_points cfg" and sn: "0 < spline_num cfg"
    and three: "3 \<le> (nat (spline_poly_num cfg) + nat (spline_num cfg) - 1) div nat (spline_num cfg)"
  shows "\<exists>ps ws. unify_polygons cfg raw gt_bbox = Inr (ps, ws)"
proof -
  have a: "map_result reshape2 raw = Inr (map rows2 raw)"
    using raw by (intro map_result_reshape2) simp
  have "\<forall>p \<in> set (map rows2 raw). p \<noteq> []"
    using raw rows2_nonempty by auto
  from filtered_polygons_returns [OF this] obtain f where
    b: "filtered_polygons (map rows2 raw) gt_bbox = Inr f" by blast
  have "\<forall>p \<in> set (map rows2 raw). \<exists>y. unify_one cfg p = Inr y"
    using raw unify_one_returns [OF _ np sn three] by auto
  from map_result_returns [OF this] obtain valid where
    c: "map_result (unify_one cfg) (map rows2 raw) = Inr valid" by blast
  show ?thesis using a b c by (simp add: unify_polygons_def)
qed

lemma filtered_polygons_after_filter:
  "filter_tiny_polys polygons = Inr f \<Longrightarrow> \<exists>f1. filtered_polygons polygons b = Inr f1"
  by (cases b) (simp add: filtered_polygons_def Let_def)

lemma unify_polygons_bbox:
  "unify_polygons cfg raw b = unify_polygons cfg raw b'"
proof (cases "map_result reshape2 raw")
  case (Inl e)
  then show ?thesis by (simp add: unify_polygons_def)
next
  case (Inr polygons)
  show ?thesis
  proof (cases "filter_tiny_polys polygons")
    case (Inl e)
    then show ?thesis using Inr by (simp add: unify_polygons_def filtered_polygons_def)
  next
    case r: (Inr f)
    obtain f1 where f1: "filtered_polygons polygons b = Inr f1"
      using filtered_polygons_after_filter [OF r] by blast
    obtain f2 where f2: "filtered_polygons polygons b' = Inr f2"
      using filtered_polygons_after_filter [OF r] by blast
    show ?thesis using Inr f1 f2 by (simp add: unify_polygons_def)
  qed
qed


lemma rows2_square10_flat: "rows2 square10_flat = square10"
  by (simp add: square10_flat_def square10_def)

lemma rows2_tiny_a: "rows2 tiny_a = [(0, 0), (2, 0), (2, 2), (0, 2)]"
  by (simp add: tiny_a_def)

lemma rows2_tiny_b: "rows2 tiny_b = [(5, 5), (6, 5), (6, 6), (5, 6)]"
  by (simp add: tiny_b_def)

lemma edgelen_tiny_a: "edgelen (rows2 tiny_a) = [2, 2, 2, 2]"
  by (simp add: rows2_tiny_a edgelen_def pgtnext_def sqdist_def upt_rec)

lemma edgelen_tiny_b: "edgelen (rows2 tiny_b) = [1, 1, 1, 1]"
  by (simp add: rows2_tiny_b edgelen_def pgtnext_def sqdist_def upt_rec)

lemma tiny_returns:
  "\<exists>ps ws. unify_polygons cfg10 [tiny_a, tiny_b] gt_bbox = Inr (ps, ws)"
proof (rule unify_polygons_returns)
  show "\<forall>flat \<in> set [tiny_a, tiny_b]. even (length flat) \<and> 0 < sum_list (edgelen (rows2 flat))"
    by (simp add: edgelen_tiny_a edgelen_tiny_b) (simp add: tiny_a_def tiny_b_def)
qed (simp_all add: cfg10_def spline_poly_num_def)

lemma filter_tiny_polys_tiny:
  "filter_tiny_polys [rows2 tiny_a, rows2 tiny_b] = Inr []"
  by (simp add: rows2_tiny_a rows2_tiny_b filter_tiny_polys_def Let_def np_min_def np_max_def
      polygon_area_def dot_def roll1_def)

text \<open>
  Claim C10.  Whenever \<open>unify_polygons\<close> returns, its two result lists have one entry
  per raw polygon of the input, whatever the filter for tiny polygons keeps.
\<close>

theorem unify_polygons_entry_per_raw_polygon:
  assumes "unify_polygons cfg raw gt_bbox = Inr (ps, ws)"
  shows "length ps = length raw \<and> length ws = length raw"
  using unify_polygons_count [OF assms] by simp

theorem unify_polygons_entry_per_raw_polygon_witness:
  "\<exists>ps ws. unify_polygons cfg10 [tiny_a, tiny_b] (0, 0, 6, 6) = Inr (ps, ws)
     \<and> length ps = 2 \<and> length ws = 2"
proof -
  from tiny_returns obtain ps ws where
    r: "unify_polygons cfg10 [tiny_a, tiny_b] (0, 0, 6, 6) = Inr (ps, ws)" by blast
  from unify_polygons_entry_per_raw_polygon [OF r] r show ?thesis by simp
qed

text \<open>
  Claim C1 (the code departs from it).  For an instance whose two raw polygons are both
  tiny, the fallback rectangle of the bounding box is computed, but the loop resamples
  the two raw polygons: the result has two entries, and it is the same for every
  bounding box.
\<close>

theorem unify_polygons_resamples_raw_polygons:
  "filtered_polygons [rows2 tiny_a, rows2 tiny_b] (0, 0, 6, 6)
     = Inr [[(0, 0), (0, 6), (6, 6), (6, 0)]]
   \<and> (\<exists>ps ws. unify_polygons cfg10 [tiny_a, tiny_b] (0, 0, 6, 6) = Inr (ps, ws) \<and> length ps = 2)
   \<and> unify_polygons cfg10 [tiny_a, tiny_b] (0, 0, 6, 6)
       = unify_polygons cfg10 [tiny_a, tiny_b] (1, 2, 3, 4)"
proof -
  have "filtered_polygons [rows2 tiny_a, rows2 tiny_b] (0, 0, 6, 6)
     = Inr [[(0, 0), (0, 6), (6, 6), (6, 0)]]"
    by (simp add: filtered_polygons_def filter_tiny_polys_tiny)
  moreover from tiny_returns obtain ps ws where
    r: "unify_polygons cfg10 [tiny_a, tiny_b] (0, 0, 6, 6) = Inr (ps, ws)" by blast
  from unify_polygons_count [OF r] r
  have "\<exists>ps ws. unify_polygons cfg10 [tiny_a, tiny_b] (0, 0, 6, 6) = Inr (ps, ws) \<and> length ps = 2"
    by simp
  ultimately show ?thesis using unify_polygons_bbox by blast
qed

text \<open>
  Claim C4 (the code departs from it).  With \<open>num_points = 4\<close> and \<open>spline_num = 5\<close> the
  working resolution is \<open>10 \<times> 4 = 40\<close>, not \<open>5 \<times> 4\<close>; every fifth of the 40 points is
  kept, so the polygon has 8 points while its weight list has 4 entries.
\<close>

theorem spline_num_resolution_mismatch:
  "spline_poly_num cfg5 = 40
   \<and> (\<exists>ps ws. unify_polygons cfg5 [square10_flat] (0, 0, 10, 10) = Inr (ps, ws)
         \<and> map length ps = [8] \<and> map length ws = [4])"
proof -
  have n: "spline_poly_num cfg5 = 40" by (simp add: spline_poly_num_def cfg5_def)
  have "\<exists>ps ws. unify_polygons cfg5 [square10_flat] (0, 0, 10, 10) = Inr (ps, ws)"
  proof (rule unify_polygons_returns)
    show "\<forall>flat \<in> set [square10_flat]. even (length flat) \<and> 0 < sum_list (edgelen (rows2 flat))"
      by (simp add: rows2_square10_flat edgelen_square10) (simp add: square10_flat_def)
  qed (simp_all add: n, simp_all add: cfg5_def)
  then obtain ps ws where
    r: "unify_polygons cfg5 [square10_flat] (0, 0, 10, 10) = Inr (ps, ws)" by blast
  from unify_polygons_count [OF r] obtain p w where pw: "ps = [p]" "ws = [w]"
    by (auto simp: length_Suc_conv)
  from unify_polygons_lengths [OF r] have "length p = 8" "length w = 4"
    by (simp_all add: pw n) (simp_all add: cfg5_def)
  with r pw n show ?thesis by simp
qed

section \<open>Properties of the matcher, the rasterizer and the loader\<close>

lemma fold_update_length:
  "length (fold (\<lambda>rv acc. acc[fst rv := snd rv]) rvs xs) = length xs"
  by (induction rvs arbitrary: xs) auto

lemma fold_update_notin:
  "i \<notin> fst ` set rvs \<Longrightarrow> fold (\<lambda>rv acc. acc[fst rv := snd rv]) rvs xs ! i = xs ! i"
  by (induction rvs arbitrary: xs) auto

lemma fold_update_in:
  assumes "distinct (map fst rvs)" "(r, v) \<in> set rvs" "r < length xs"
  shows "fold (\<lambda>rv acc. acc[fst rv := snd rv]) rvs xs ! r = v"
  using assms
proof (induction rvs arbitrary: xs)
  case Nil
  then show ?case by simp
next
  case (Cons a rvs)
  show ?case
  proof (cases "a = (r, v)")
    case True
    then have "r \<notin> fst ` set rvs" using Cons.prems(1) by auto
    then show ?thesis using True Cons.prems(3) by (simp add: fold_update_notin)
  next
    case False
    then have "(r, v) \<in> set rvs" using Cons.prems(2) by simp
    then show ?thesis using Cons.IH [of "xs[fst a := snd a]"] Cons.prems by simp
  qed
qed

lemma assign_rows_Inr:
  assumes "\<forall>r \<in> set rows. r < length xs"
  shows "assign_rows xs rows vals = Inr (fold (\<lambda>rv acc. acc[fst rv := snd rv]) (zip rows vals) xs)"
  using assms by (simp add: assign_rows_def list_all_iff)


lemma zip_rows_vals:
  "zip (map fst m) (map g (map snd m)) = map (\<lambda>rc. (fst rc, g (snd rc))) m"
  by (induction m) auto

lemma zip_rows_const:
  "zip (map fst m) (replicate (length (map fst m)) c) = map (\<lambda>rc. (fst rc, c)) m"
  by (induction m) auto

lemma list_of_length_4: "length xs = 4 \<Longrightarrow> xs = [xs ! 0, xs ! 1, xs ! 2, xs ! 3]"
  by (cases xs; cases "tl xs"; cases "tl (tl xs)"; cases "tl (tl (tl xs))") auto

lemma real_keypoints_example:
  "real_keypoints [(9, 9), (1, 1), (0, 0), (0, 0)] [1, 1, 0, 0] = [(9, 9), (1, 1)]"
  by (simp add: real_keypoints_def)

text \<open>
  Claim C5 (as amended).  Let the assignment solver return, for the \<open>N\<close> points of the resampled
  polygon and the \<open>M\<close> real keypoints, \<open>M\<close> pairs with distinct rows below \<open>N\<close> and
  columns below \<open>M\<close>, and let the weight array have \<open>N = num_points\<close> entries.  Then
  the matching step returns; the matched rows are \<open>M\<close> different indices; the weight is
  \<open>key_points_weight\<close> cut to an integer (its fractional part dropped) at every matched
  row and 1 at every other index; the point at a matched row is the matched keypoint,
  and every other point is unchanged.
\<close>

theorem matching_weights_truncated:
  assumes lsa: "lsa (cdist poly (real_keypoints poly2 w2)) = matched"
    and dist: "distinct (map fst matched)"
    and range: "\<forall>rc \<in> set matched. fst rc < length poly \<and> snd rc < length (real_keypoints poly2 w2)"
    and count: "length matched = length (real_keypoints poly2 w2)"
    and n: "int (length poly) = num_points cfg"
  shows "\<exists>poly' label. match_one cfg lsa poly poly2 w2 = Inr (poly', label)
           \<and> length poly' = length poly \<and> length label = length poly
           \<and> card (fst ` set matched) = length (real_keypoints poly2 w2)
           \<and> (\<forall>i < length poly. label ! i =
                 (if i \<in> fst ` set matched then trunc_int (key_points_weight cfg) else 1))
           \<and> (\<forall>rc \<in> set matched. poly' ! fst rc = real_keypoints poly2 w2 ! snd rc)
           \<and> (\<forall>i < length poly. i \<notin> fst ` set matched \<longrightarrow> poly' ! i = poly ! i)"
proof -
  let ?kps = "real_keypoints poly2 w2"
  let ?rows = "map fst matched" and ?cols = "map snd matched"
  let ?upd = "\<lambda>rv acc. acc[fst rv := snd rv]"
  let ?pv = "map (\<lambda>rc. (fst rc, ?kps ! snd rc)) matched"
  let ?lv = "map (\<lambda>rc. (fst rc, trunc_int (key_points_weight cfg))) matched"
  let ?ones = "replicate (nat (num_points cfg)) (1::int)"
  define poly' where "poly' = fold ?upd ?pv poly"
  define label where "label = fold ?upd ?lv ?ones"
  have nn: "nat (num_points cfg) = length poly" using n by simp
  have t: "take_rows ?kps ?cols = Inr (map (\<lambda>c. ?kps ! c) ?cols)"
    using range by (simp add: take_rows_def list_all_iff)
  have rows_lt: "\<forall>r \<in> set ?rows. r < length poly" using range by auto
  have z1: "zip ?rows (map (\<lambda>c. ?kps ! c) ?cols) = ?pv" by (rule zip_rows_vals)
  have a1: "assign_rows poly ?rows (map (\<lambda>c. ?kps ! c) ?cols) = Inr poly'"
    unfolding poly'_def z1 [symmetric] by (rule assign_rows_Inr [OF rows_lt])
  have rows_lt': "\<forall>r \<in> set ?rows. r < length ?ones" using rows_lt nn by simp
  have z2: "zip ?rows (replicate (length ?rows) (trunc_int (key_points_weight cfg))) = ?lv"
    by (rule zip_rows_const)
  have a2: "assign_rows ?ones ?rows (replicate (length ?rows) (trunc_int (key_points_weight cfg))) = Inr label"
    unfolding label_def z2 [symmetric] by (rule assign_rows_Inr [OF rows_lt'])
  have res: "match_one cfg lsa poly poly2 w2 = Inr (poly', label)"
    using lsa t a1 a2 n by (simp add: match_one_def Let_def)
  have l1: "length poly' = length poly" by (simp add: poly'_def fold_update_length)
  have l2: "length label = length poly" by (simp add: label_def fold_update_length nn)
  have card: "card (fst ` set matched) = length ?kps"
    using distinct_card [OF dist] count by simp
  have dpv: "distinct (map fst ?pv)" and dlv: "distinct (map fst ?lv)"
    using dist by (simp_all add: comp_def)
  have fpv: "fst ` set ?pv = fst ` set matched" and flv: "fst ` set ?lv = fst ` set matched"
    by force+
  have lab: "label ! i = (if i \<in> fst ` set matched then trunc_int (key_points_weight cfg) else 1)"
    if "i < length poly" for i
  proof (cases "i \<in> fst ` set matched")
    case True
    then obtain rc where rc: "rc \<in> set matched" "fst rc = i" by auto
    then have "(i, trunc_int (key_points_weight cfg)) \<in> set ?lv" by force
    from fold_update_in [OF dlv this, of ?ones] that nn True show ?thesis
      by (simp add: label_def)
  next
    case False
    then have "i \<notin> fst ` set ?lv" unfolding flv .
    from fold_update_notin [OF this, of ?ones] that nn False show ?thesis
      by (simp add: label_def)
  qed
  have pts: "poly' ! fst rc = ?kps ! snd rc" if "rc \<in> set matched" for rc
  proof -
    have "(fst rc, ?kps ! snd rc) \<in> set ?pv" using that by force
    from fold_update_in [OF dpv this, of poly] range that show ?thesis
      by (simp add: poly'_def)
  qed
  have keep: "poly' ! i = poly ! i" if "i \<notin> fst ` set matched" for i
  proof -
    from that have "i \<notin> fst ` set ?pv" unfolding fpv .
    from fold_update_notin [OF this, of poly] show ?thesis by (simp add: poly'_def)
  qed
  show ?thesis using res l1 l2 card lab pts keep by blast
qed


theorem matching_weights_truncated_witness:
  "distinct (map fst [(0::nat, 1::nat), (2, 0)])
   \<and> list_all (\<lambda>rc. fst rc < length square10 \<and> snd rc < 2) [(0::nat, 1::nat), (2, 0)]
   \<and> int (length square10) = num_points cfg10
   \<and> match_one cfg10 (\<lambda>dis. [(0, 1), (2, 0)]) square10 [(9, 9), (1, 1), (0, 0), (0, 0)] [1, 1, 0, 0]
       = Inr ([(1, 1), (0, 10), (9, 9), (10, 0)], [2, 1, 2, 1])"
proof -
  let ?m = "[(0::nat, 1::nat), (2, 0)]"
  let ?p2 = "[(9, 9), (1, 1), (0, 0), (0, 0)] :: ipoint list"
  let ?w2 = "[1, 1, 0, 0] :: int list"
  have h1: "distinct (map fst ?m)" by simp
  have h2: "\<forall>rc \<in> set ?m. fst rc < length square10 \<and> snd rc < length (real_keypoints ?p2 ?w2)"
    by (simp add: real_keypoints_example square10_def)
  have h3: "length ?m = length (real_keypoints ?p2 ?w2)"
    by (simp add: real_keypoints_example)
  have h4: "int (length square10) = num_points cfg10"
    by (simp add: square10_def cfg10_def)
  from matching_weights_truncated [of "\<lambda>dis. ?m" square10 ?p2 ?w2 ?m cfg10, OF refl h1 h2 h3 h4]
  obtain poly' label where
    r: "match_one cfg10 (\<lambda>dis. ?m) square10 ?p2 ?w2 = Inr (poly', label)"
    and l: "length poly' = length square10" "length label = length square10"
    and lab: "\<forall>i < length square10. label ! i =
                (if i \<in> fst ` set ?m then trunc_int (key_points_weight cfg10) else 1)"
    and pts: "\<forall>rc \<in> set ?m. poly' ! fst rc = real_keypoints ?p2 ?w2 ! snd rc"
    and keep: "\<forall>i < length square10. i \<notin> fst ` set ?m \<longrightarrow> poly' ! i = square10 ! i"
    by blast
  have four: "length square10 = 4" by (simp add: square10_def)
  have rows: "fst ` set ?m = {0, 2}" by simp
  have "label ! 0 = 2" "label ! 1 = 1" "label ! 2 = 2" "label ! 3 = 1"
    using lab [rule_format, of 0] lab [rule_format, of 1] lab [rule_format, of 2]
      lab [rule_format, of 3]
    unfolding four rows by (simp_all add: cfg10_def trunc_int_def)
  with list_of_length_4 [of label] l(2) four have lab4: "label = [2, 1, 2, 1]" by simp
  have "poly' ! 0 = (1, 1)" "poly' ! 2 = (9, 9)"
    using pts [rule_format, of "(0, 1)"] pts [rule_format, of "(2, 0)"]
    unfolding real_keypoints_example by simp_all
  moreover have "poly' ! 1 = (0, 10)" "poly' ! 3 = (10, 0)"
    using keep [rule_format, of 1] keep [rule_format, of 3]
    unfolding four rows by (simp_all add: square10_def)
  ultimately have pts4: "poly' = [(1, 1), (0, 10), (9, 9), (10, 0)]"
    using list_of_length_4 [of poly'] l(1) four by simp
  have "list_all (\<lambda>rc. fst rc < length square10 \<and> snd rc < 2) ?m"
    by (simp add: four)
  with r h1 h4 show ?thesis unfolding lab4 pts4 by blast
qed

text \<open>
  Claim C5 as stated fails for a weight that is not an integer: with
  \<open>key_points_weight = 2.5\<close> the matched rows carry the weight 2.
\<close>

theorem matching_weight_not_stored_exactly:
  "key_points_weight (cfg10\<lparr>key_points_weight := 5 / 2\<rparr>) = 5 / 2
   \<and> match_one (cfg10\<lparr>key_points_weight := 5 / 2\<rparr>) (\<lambda>dis. [(0, 1), (2, 0)]) square10
        [(9, 9), (1, 1), (0, 0), (0, 0)] [1, 1, 0, 0]
       = Inr ([(1, 1), (0, 10), (9, 9), (10, 0)], [2, 1, 2, 1])
   \<and> real_of_int 2 \<noteq> 5 / 2"
proof -
  have ones: "replicate 4 (1::int) = [1, 1, 1, 1]"
    by (simp add: numeral_eq_Suc)
  have "match_one (cfg10\<lparr>key_points_weight := 5 / 2\<rparr>) (\<lambda>dis. [(0, 1), (2, 0)]) square10
        [(9, 9), (1, 1), (0, 0), (0, 0)] [1, 1, 0, 0]
       = Inr ([(1, 1), (0, 10), (9, 9), (10, 0)], [2, 1, 2, 1])"
    unfolding match_one_def real_keypoints_example
    by (simp add: take_rows_def assign_rows_def Let_def bind_r_def cfg10_def square10_def
        trunc_int_def ones)
  then show ?thesis by (simp add: cfg10_def)
qed

text \<open>
  Claim C9.  When the sum of the decoded masks exists and its shape is not
  \<open>(h, w)\<close>, the raster is the array of zeros of shape \<open>(h, w)\<close>, and nothing is raised.
\<close>

theorem raster_shape_fallback:
  assumes "mask_sum masks = Inr summed" and "shape summed \<noteq> [h, w]"
  shows "gt_poly_masks h w masks = Inr \<lparr>shape = [h, w], entries = replicate (h * w) 0\<rparr>"
  using assms by (simp add: gt_poly_masks_def zeros_def)

theorem raster_shape_fallback_witness:
  "mask_sum [\<lparr>shape = [1, 2], entries = [1, 0]\<rparr>, \<lparr>shape = [1, 2], entries = [1, 1]\<rparr>]
     = Inr \<lparr>shape = [1, 2], entries = [2, 1]\<rparr>
   \<and> gt_poly_masks 2 2 [\<lparr>shape = [1, 2], entries = [1, 0]\<rparr>, \<lparr>shape = [1, 2], entries = [1, 1]\<rparr>]
     = Inr \<lparr>shape = [2, 2], entries = [0, 0, 0, 0]\<rparr>
   \<and> gt_poly_masks 2 2 [] = Inr \<lparr>shape = [2, 2], entries = [0, 0, 0, 0]\<rparr>"
proof -
  let ?ms = "[\<lparr>shape = [1, 2], entries = [1, 0]\<rparr>, \<lparr>shape = [1, 2], entries = [1, 1]\<rparr>]"
  have s1: "mask_sum ?ms = Inr \<lparr>shape = [1, 2], entries = [2, 1]\<rparr>"
    by (simp add: mask_sum_def)
  have s2: "mask_sum [] = Inr \<lparr>shape = [], entries = [0]\<rparr>"
    by (simp add: mask_sum_def)
  have r2: "replicate (2 * 2) (0::real) = [0, 0, 0, 0]" by (simp add: numeral_eq_Suc)
  from raster_shape_fallback [OF s1, of 2 2] raster_shape_fallback [OF s2, of 2 2] s1
  show ?thesis unfolding r2 by simp
qed

lemma process_polygons_m_filter:
  "process_polygons_m cfg simplify polygons
     = process_polygons_m cfg simplify (filter well_formed polygons)"
  by (simp add: process_polygons_m_def)

lemma raster_returns_single: "\<exists>m. gt_poly_masks h w [a] = Inr m"
  by (simp add: gt_poly_masks_def mask_sum_def)

lemma load_masks_single_raises:
  assumes "training cfg" and "load_instance cfg simplify lsa gt_bboxes 0 gt_mask = Inl e"
  shows "load_masks cfg simplify lsa decode h w [gt_mask] gt_bboxes
     = (if poly2mask cfg then (case decode gt_mask of Inl e' \<Rightarrow> Inl e' | Inr a \<Rightarrow> Inl e)
        else Inl e)"
proof (cases "decode gt_mask")
  case (Inl e')
  then show ?thesis using assms by (simp add: load_masks_def bind_r_def)
next
  case (Inr a)
  obtain m where m: "gt_poly_masks h w [a] = Inr m"
    using raster_returns_single by blast
  show ?thesis using assms Inr m by (simp add: load_masks_def bind_r_def)
qed

lemma edgelen_two_points: "edgelen [(0, 0), (4, 0)] = [4, 4]"
  by (simp add: edgelen_def pgtnext_def sqdist_def upt_rec)

lemma load_instance_odd_length:
  "load_instance (cfg10\<lparr>poly2mask := b\<rparr>) simplify lsa [(0, 0, 10, 10)] 0
     [square10_flat, [0, 0, 10, 0, 10]] = Inl ValueError"
proof -
  have "unify_polygons (cfg10\<lparr>poly2mask := b\<rparr>) [square10_flat, [0, 0, 10, 0, 10]] (0, 0, 10, 10)
      = Inl ValueError"
    by (simp add: unify_polygons_def reshape2_def square10_flat_def)
  then show ?thesis by (simp add: load_instance_def py_index_def cfg10_def)
qed

lemma process_polygons_m_two_points:
  "process_polygons_m cfg simplify [[0, 0, 4, 0]] = Inr ([], [])"
  by (simp add: process_polygons_m_def well_formed_def)

lemma load_instance_two_points:
  "load_instance (cfg10\<lparr>poly2mask := b\<rparr>) simplify lsa [(0, 0, 4, 1)] 0 [[0, 0, 4, 0]]
     = Inl IndexError"
proof -
  let ?cfg = "cfg10\<lparr>poly2mask := b\<rparr>"
  have "\<exists>ps ws. unify_polygons ?cfg [[0, 0, 4, 0]] (0, 0, 4, 1) = Inr (ps, ws)"
  proof (rule unify_polygons_returns)
    show "\<forall>flat \<in> set [[0, 0, 4, 0]]. even (length flat) \<and> 0 < sum_list (edgelen (rows2 flat))"
      by (simp add: edgelen_two_points)
  qed (simp_all add: cfg10_def spline_poly_num_def)
  then obtain ps ws where u: "unify_polygons ?cfg [[0, 0, 4, 0]] (0, 0, 4, 1) = Inr (ps, ws)"
    by blast
  from unify_polygons_count [OF u] have "length ps = 1" by simp
  then show ?thesis
    using u by (simp add: load_instance_def py_index_def process_polygons_m_two_points cfg10_def)
qed

text \<open>
  Claim C8 (the code departs from it).  \<open>process_polygons_m\<close> leaves a malformed polygon
  out, but with a positive \<open>spline_num\<close> the loading call raises on it.  On a list of
  odd length \<open>unify_polygons\<close> cannot reshape it (\<open>ValueError\<close>), without \<open>poly2mask\<close>
  and with it, whatever array the decoder returns.  On a list of two points
  \<open>unify_polygons\<close> returns one polygon while \<open>process_polygons_m\<close> returns none, and
  reading the latter at index 0 raises \<open>IndexError\<close>; with \<open>poly2mask\<close> the call
  raises too, the decoder's exception if the decoder refuses the annotation.
\<close>

theorem malformed_polygon_raises:
  "process_polygons_m cfg10 simplify [square10_flat, [0, 0, 10, 0, 10]]
     = process_polygons_m cfg10 simplify [square10_flat]
   \<and> load_masks (cfg10\<lparr>poly2mask := False\<rparr>) simplify lsa decode h w
        [[square10_flat, [0, 0, 10, 0, 10]]] [(0, 0, 10, 10)] = Inl ValueError
   \<and> load_masks cfg10 simplify lsa (\<lambda>mask_ann. Inr (raster mask_ann)) h w
        [[square10_flat, [0, 0, 10, 0, 10]]] [(0, 0, 10, 10)] = Inl ValueError
   \<and> process_polygons_m cfg10 simplify [[0, 0, 4, 0]] = Inr ([], [])
   \<and> load_masks (cfg10\<lparr>poly2mask := False\<rparr>) simplify lsa decode h w
        [[[0, 0, 4, 0]]] [(0, 0, 4, 1)] = Inl IndexError
   \<and> load_masks cfg10 simplify lsa decode h w [[[0, 0, 4, 0]]] [(0, 0, 4, 1)]
       = (case decode [[0, 0, 4, 0]] of Inl e \<Rightarrow> Inl e | Inr a \<Rightarrow> Inl IndexError)"
proof -
  have tr: "training (cfg10\<lparr>poly2mask := b\<rparr>)" for b by (simp add: cfg10_def)
  have c10: "cfg10 = cfg10\<lparr>poly2mask := True\<rparr>" by (simp add: cfg10_def)
  have a: "process_polygons_m cfg10 simplify [square10_flat, [0, 0, 10, 0, 10]]
     = process_polygons_m cfg10 simplify [square10_flat]"
    by (simp add: process_polygons_m_def well_formed_def square10_flat_def)
  have b: "load_masks (cfg10\<lparr>poly2mask := False\<rparr>) simplify lsa decode h w
        [[square10_flat, [0, 0, 10, 0, 10]]] [(0, 0, 10, 10)] = Inl ValueError"
    by (simp add: load_masks_single_raises [OF tr load_instance_odd_length])
  have "load_masks (cfg10\<lparr>poly2mask := True\<rparr>) simplify lsa (\<lambda>mask_ann. Inr (raster mask_ann)) h w
        [[square10_flat, [0, 0, 10, 0, 10]]] [(0, 0, 10, 10)] = Inl ValueError"
    by (simp add: load_masks_single_raises [OF tr load_instance_odd_length])
  then have b': "load_masks cfg10 simplify lsa (\<lambda>mask_ann. Inr (raster mask_ann)) h w
        [[square10_flat, [0, 0, 10, 0, 10]]] [(0, 0, 10, 10)] = Inl ValueError"
    using c10 by simp
  have d: "load_masks (cfg10\<lparr>poly2mask := False\<rparr>) simplify lsa decode h w
        [[[0, 0, 4, 0]]] [(0, 0, 4, 1)] = Inl IndexError"
    by (simp add: load_masks_single_raises [OF tr load_instance_two_points])
  have "load_masks (cfg10\<lparr>poly2mask := True\<rparr>) simplify lsa decode h w
        [[[0, 0, 4, 0]]] [(0, 0, 4, 1)]
       = (case decode [[0, 0, 4, 0]] of Inl e \<Rightarrow> Inl e | Inr a \<Rightarrow> Inl IndexError)"
    by (simp add: load_masks_single_raises [OF tr load_instance_two_points])
  then have d': "load_masks cfg10 simplify lsa decode h w [[[0, 0, 4, 0]]] [(0, 0, 4, 1)]
       = (case decode [[0, 0, 4, 0]] of Inl e \<Rightarrow> Inl e | Inr a \<Rightarrow> Inl IndexError)"
    using c10 by simp
  from a b b' process_polygons_m_two_points [of cfg10 simplify] d d' show ?thesis by blast
qed

end
